theory Spec2Isabelle
  imports Complex_Main "HOL-Library.Word" "HOL-Library.Monad_Syntax"
begin

unbundle bit_operations_syntax

section \<open>Numbers and memory\<close>

text \<open>
  TCanny.cpp computes on C++ \<open>float\<close> and \<open>int\<close>. In this development a \<open>float\<close> is a
  \<open>real\<close>: every arithmetic operation is the exact one, and the special values (NaN, the
  infinities, the negative zero) do not exist. An \<open>int\<close> is an unbounded \<open>int\<close> where
  the code computes coordinates, indices and sample values, which the size of a frame
  bounds; the conversion \<open>static_cast<int>\<close> truncates towards zero. In \<open>gaussianWeights\<close>,
  whose integers grow with the parameter \<open>sigma\<close>, the arithmetic is that of 32 bits. The
  constants of the source keep
  their names: \<open>M_PIF\<close> and \<open>M_1_PIF\<close> are the exact \<open>pi\<close> and \<open>1 / pi\<close>, \<open>FLT_MAX\<close> is the
  largest finite single-precision number, \<open>2 ^ 128 - 2 ^ 104\<close>.
\<close>

definition M_PIF :: real where
  "M_PIF = pi"

definition M_1_PIF :: real where
  "M_1_PIF = 1 / pi"

definition FLT_MAX :: real where
  "FLT_MAX = 340282346638528859811704183484516925440"

definition UINT8_MAX :: "8 word" where
  "UINT8_MAX = 255"

definition static_cast_int :: "real \<Rightarrow> int" where
  "static_cast_int v = (if 0 \<le> v then \<lfloor>v\<rfloor> else \<lceil>v\<rceil>)"

text \<open>
  \<open>std::atan2 y x\<close> of the C library: the angle of the point \<open>(x, y)\<close>, in \<open>[- pi, pi]\<close>,
  and \<open>0\<close> at the origin.
\<close>

definition atan2 :: "real \<Rightarrow> real \<Rightarrow> real" where
  "atan2 y x =
     (if 0 < x then arctan (y / x)
      else if x < 0 \<and> 0 \<le> y then arctan (y / x) + pi
      else if x < 0 then arctan (y / x) - pi
      else if 0 < y then pi / 2
      else if y < 0 then - (pi / 2)
      else 0)"

text \<open>
  A buffer is a list, a pointer into it is an index of the list (an \<open>int\<close>, since the code
  computes with negative offsets). A read or a write outside the buffer is undefined
  behaviour in C++; here it is the result \<open>None\<close>, and \<open>None\<close> ends the computation.
\<close>

definition rd :: "'a list \<Rightarrow> int \<Rightarrow> 'a option" where
  "rd b i = (if 0 \<le> i \<and> i < int (length b) then Some (b ! nat i) else None)"

definition wr :: "'a list \<Rightarrow> int \<Rightarrow> 'a \<Rightarrow> 'a list option" where
  "wr b i v = (if 0 \<le> i \<and> i < int (length b) then Some (b[nat i := v]) else None)"

text \<open>A \<open>for\<close> loop over a list of index values, its body run on the state in order.\<close>

fun for_loop :: "'a list \<Rightarrow> ('a \<Rightarrow> 's \<Rightarrow> 's option) \<Rightarrow> 's \<Rightarrow> 's option" where
  "for_loop [] body s = Some s"
| "for_loop (k # ks) body s =
     (case body k s of None \<Rightarrow> None | Some s' \<Rightarrow> for_loop ks body s')"

text \<open>\<open>std::fill_n (p, n, v)\<close>: the cells \<open>p[0]\<close> to \<open>p[n - 1]\<close> are set to \<open>v\<close>.\<close>

definition fill_n :: "'a list \<Rightarrow> int \<Rightarrow> int \<Rightarrow> 'a \<Rightarrow> 'a list option" where
  "fill_n b p n v = for_loop [0..n - 1] (\<lambda>k b. wr b (p + k) v) b"

section \<open>The Gaussian kernel\<close>

text \<open>
  The arithmetic of a 32-bit \<open>int\<close>. \<open>int32 i\<close> is the value that an operation leaves
  whose exact result is \<open>i\<close>: the result modulo \<open>2 ^ 32\<close>, between \<open>- 2 ^ 31\<close> and
  \<open>2 ^ 31 - 1\<close>, as the machine computes it (C++ leaves a signed overflow undefined).
  \<open>div_int\<close> is the division of C++, which truncates towards zero. The conversion of a
  \<open>float\<close> whose truncation is not an \<open>int\<close> has no result that holds on every machine: it
  is \<open>None\<close>.
\<close>

definition int32 :: "int \<Rightarrow> int" where
  "int32 i = (i + 2147483648) mod 4294967296 - 2147483648"

definition div_int :: "int \<Rightarrow> int \<Rightarrow> int" where
  "div_int a b = sgn a * sgn b * (\<bar>a\<bar> div \<bar>b\<bar>)"

definition static_cast_int32 :: "real \<Rightarrow> int option" where
  "static_cast_int32 v =
     (let i = static_cast_int v
      in if - 2147483648 \<le> i \<and> i \<le> 2147483647 then Some i else None)"

text \<open>
  \<open>gaussianWeights\<close> (lines 73 to 92). The array comes from \<open>new (std::nothrow)\<close>, which
  may fail: \<open>nothrow_new n\<close> tells whether an array of \<open>n\<close> floats can be had, and an
  array of a negative length cannot. The radius is stored through the pointer before
  the allocation, so it is returned in both cases. The product \<open>k * k\<close> and its negation
  are computed on \<open>int\<close> before the conversion to \<open>float\<close>.
\<close>

definition gaussianWeights :: "(int \<Rightarrow> bool) \<Rightarrow> real \<Rightarrow> (real list option \<times> int) option" where
  "gaussianWeights nothrow_new sigma = do {
     c \<leftarrow> static_cast_int32 (sigma * 3 + 0.5);
     let diameter = int32 (int32 (max c 1 * 2) + 1);
     let radius = div_int diameter 2;
     if diameter < 0 \<or> \<not> nothrow_new diameter then Some (None, radius)
     else
       let (weights, sum) =
             fold (\<lambda>k (weights, sum).
                     let w = exp (real_of_int (int32 (- int32 (k * k))) / (2 * sigma * sigma))
                     in (weights[nat (k + radius) := w], sum + w))
                  [- radius..radius] (replicate (nat diameter) 0, 0);
           weights =
             fold (\<lambda>k weights. weights[nat k := weights ! nat k / sum])
                  [0..diameter - 1] weights
       in Some (Some weights, radius) }"

section \<open>Direction bins\<close>

text \<open>
  \<open>getBin\<close> (lines 94 to 104): the generic template, whose result is an integer, and its
  specialisation for \<open>float\<close>.
\<close>

definition getBin_T :: "real \<Rightarrow> int \<Rightarrow> int" where
  "getBin_T dir n =
     (let bin = static_cast_int (dir * real_of_int n * M_1_PIF + 0.5)
      in if bin \<ge> n then 0 else bin)"

definition getBin_float :: "real \<Rightarrow> int \<Rightarrow> real" where
  "getBin_float dir n =
     (let bin = dir * M_1_PIF
      in if bin > real_of_int n then 0 else bin)"

section \<open>Gradient and direction\<close>

text \<open>
  The four stencils of \<open>detectEdge\<close> (lines 614 to 626) at column \<open>x\<close>: \<open>srcpp\<close>, \<open>srcp\<close>
  and \<open>srcpn\<close> point to the previous, the current and the next row of the blurred plane.
  Each operator reads the cells its formula names, and no other.
\<close>

definition detectEdge_stencil ::
  "real list \<Rightarrow> int \<Rightarrow> int \<Rightarrow> int \<Rightarrow> int \<Rightarrow> int \<Rightarrow> (real \<times> real) option" where
  "detectEdge_stencil bbuf srcpp srcp srcpn op x =
     (if op = 0 then do {
        pr \<leftarrow> rd bbuf (srcp + x + 1);
        pl \<leftarrow> rd bbuf (srcp + x - 1);
        ppc \<leftarrow> rd bbuf (srcpp + x);
        pnc \<leftarrow> rd bbuf (srcpn + x);
        Some (pr - pl, ppc - pnc) }
      else do {
        ppr \<leftarrow> rd bbuf (srcpp + x + 1);
        pr \<leftarrow> rd bbuf (srcp + x + 1);
        pnr \<leftarrow> rd bbuf (srcpn + x + 1);
        ppl \<leftarrow> rd bbuf (srcpp + x - 1);
        pl \<leftarrow> rd bbuf (srcp + x - 1);
        pnl \<leftarrow> rd bbuf (srcpn + x - 1);
        ppc \<leftarrow> rd bbuf (srcpp + x);
        pnc \<leftarrow> rd bbuf (srcpn + x);
        Some
          (if op = 1 then
             ((ppr + pr + pnr - ppl - pl - pnl) / 2, (ppl + ppc + ppr - pnl - pnc - pnr) / 2)
           else if op = 2 then
             (ppr + 2 * pr + pnr - ppl - 2 * pl - pnl,
              ppl + 2 * ppc + ppr - pnl - 2 * pnc - pnr)
           else
             (3 * ppr + 10 * pr + 3 * pnr - 3 * ppl - 10 * pl - 3 * pnl,
              3 * ppl + 10 * ppc + 3 * ppr - 3 * pnl - 10 * pnc - 3 * pnr)) })"

text \<open>Lines 628 and 631 to 634: the magnitude and the direction stored for \<open>(gx, gy)\<close>.\<close>

definition detectEdge_gradient :: "real \<Rightarrow> real \<Rightarrow> real" where
  "detectEdge_gradient gx gy = sqrt (gx * gx + gy * gy)"

definition detectEdge_direction :: "real \<Rightarrow> real \<Rightarrow> real" where
  "detectEdge_direction gx gy =
     (let dr = atan2 gy gx in if dr < 0 then dr + M_PIF else dr)"

text \<open>
  \<open>detectEdge\<close> (lines 598 to 645). \<open>bbuf\<close>, \<open>gbuf\<close> and \<open>dbuf\<close> are the buffers the pointers
  \<open>blur\<close>, \<open>gradient\<close> and \<open>direction\<close> point into. The function writes the halo cells of
  the blurred plane, so the three buffers are returned.
\<close>

definition detectEdge ::
  "real list \<Rightarrow> int \<Rightarrow> real list \<Rightarrow> int \<Rightarrow> real list \<Rightarrow> int \<Rightarrow> int \<Rightarrow> int \<Rightarrow> int \<Rightarrow> int \<Rightarrow> int \<Rightarrow> int
     \<Rightarrow> (real list \<times> real list \<times> real list) option" where
  "detectEdge bbuf blur gbuf gradient dbuf direction width height stride blurStride mode op = do {
     let srcpp = blur;
     let srcp = blur;
     let srcpn = blur + blurStride;
     v \<leftarrow> rd bbuf srcp;
     bbuf \<leftarrow> wr bbuf (srcp - 1) v;
     v \<leftarrow> rd bbuf (srcp + width - 1);
     bbuf \<leftarrow> wr bbuf (srcp + width) v;
     (bbuf, gbuf, dbuf, srcpp, srcp, srcpn, gradient, direction) \<leftarrow>
       for_loop [0..height - 1]
         (\<lambda>y (bbuf, gbuf, dbuf, srcpp, srcp, srcpn, gradient, direction). do {
            v \<leftarrow> rd bbuf srcpn;
            bbuf \<leftarrow> wr bbuf (srcpn - 1) v;
            v \<leftarrow> rd bbuf (srcpn + width - 1);
            bbuf \<leftarrow> wr bbuf (srcpn + width) v;
            (gbuf, dbuf) \<leftarrow>
              for_loop [0..width - 1]
                (\<lambda>x (gbuf, dbuf). do {
                   (gx, gy) \<leftarrow> detectEdge_stencil bbuf srcpp srcp srcpn op x;
                   gbuf \<leftarrow> wr gbuf (gradient + x) (detectEdge_gradient gx gy);
                   dbuf \<leftarrow> (if mode \<noteq> 1
                             then wr dbuf (direction + x) (detectEdge_direction gx gy)
                             else Some dbuf);
                   Some (gbuf, dbuf) })
                (gbuf, dbuf);
            Some (bbuf, gbuf, dbuf, srcp, srcpn,
                  (if y < height - 2 then srcpn + blurStride else srcpn),
                  gradient + stride, direction + stride) })
         (bbuf, gbuf, dbuf, srcpp, srcp, srcpn, gradient, direction);
     Some (bbuf, gbuf, dbuf) }"

section \<open>Non-maximum suppression\<close>

text \<open>
  \<open>nonMaximumSuppression\<close> (lines 647 to 667). The gradient and the direction are read,
  the blurred plane is overwritten; the new contents of its buffer are returned.
\<close>

definition nonMaximumSuppression ::
  "real list \<Rightarrow> int \<Rightarrow> real list \<Rightarrow> int \<Rightarrow> real list \<Rightarrow> int \<Rightarrow> int \<Rightarrow> int \<Rightarrow> int \<Rightarrow> int
     \<Rightarrow> real list option" where
  "nonMaximumSuppression gbuf gradient dbuf direction bbuf blur width height stride blurStride =
     (let offsets = [1, - stride + 1, - stride, - stride - 1] in do {
        bbuf \<leftarrow> fill_n bbuf blur width (- FLT_MAX);
        (bbuf, gradient, direction, blur) \<leftarrow>
          for_loop [1..height - 2]
            (\<lambda>y (bbuf, gradient, direction, blur). do {
               let gradient = gradient + stride;
               let direction = direction + stride;
               let blur = blur + blurStride;
               bbuf \<leftarrow>
                 for_loop [1..width - 2]
                   (\<lambda>x bbuf. do {
                      dir \<leftarrow> rd dbuf (direction + x);
                      offset \<leftarrow> rd offsets (getBin_T dir 4);
                      g \<leftarrow> rd gbuf (gradient + x);
                      gp \<leftarrow> rd gbuf (gradient + x + offset);
                      gm \<leftarrow> rd gbuf (gradient + x - offset);
                      wr bbuf (blur + x) (if g \<ge> max gp gm then g else - FLT_MAX) })
                   bbuf;
               bbuf \<leftarrow> wr bbuf (blur + width - 1) (- FLT_MAX);
               bbuf \<leftarrow> wr bbuf blur (- FLT_MAX);
               Some (bbuf, gradient, direction, blur) })
            (bbuf, gradient, direction, blur);
        fill_n bbuf (blur + blurStride) width (- FLT_MAX) })"

section \<open>Hysteresis\<close>

text \<open>
  The \<open>Stack\<close> of the source (lines 55 to 67): the visit mask \<open>map\<close> (here \<open>map_s\<close>), the
  array \<open>pos\<close> of coordinate pairs and the index of the top entry.
\<close>

record Stack =
  map_s :: "8 word list"
  pos :: "(int \<times> int) list"
  index :: int

definition push :: "Stack \<Rightarrow> int \<Rightarrow> int \<Rightarrow> Stack option" where
  "push s x y = do {
     let i = index s + 1;
     p \<leftarrow> wr (pos s) i (x, y);
     Some (s\<lparr>pos := p, index := i\<rparr>) }"

definition pop :: "Stack \<Rightarrow> ((int \<times> int) \<times> Stack) option" where
  "pop s = do {
     p \<leftarrow> rd (pos s) (index s);
     Some (p, s\<lparr>index := index s - 1\<rparr>) }"

text \<open>
  The three statements that confirm a pixel (lines 751 to 753, and again 761 to 763):
  the sentinel is stored, the mask byte is set, the coordinates are pushed.
\<close>

definition hysteresis_mark ::
  "int \<Rightarrow> int \<Rightarrow> int \<Rightarrow> int \<Rightarrow> int \<Rightarrow> real list \<times> Stack \<Rightarrow> (real list \<times> Stack) option" where
  "hysteresis_mark blur width blurStride x y = (\<lambda>(bbuf, stack). do {
     bbuf \<leftarrow> wr bbuf (blur + (blurStride * y + x)) FLT_MAX;
     m \<leftarrow> wr (map_s stack) (width * y + x) UINT8_MAX;
     stack \<leftarrow> push (stack\<lparr>map_s := m\<rparr>) x y;
     Some (bbuf, stack) })"

text \<open>
  The body of the two inner \<open>for\<close> loops (lines 760 to 764). The \<open>&&\<close> of the source reads
  the mask only when the first test holds.
\<close>

definition hysteresis_neighbour ::
  "int \<Rightarrow> int \<Rightarrow> int \<Rightarrow> real \<Rightarrow> int \<times> int \<Rightarrow> real list \<times> Stack \<Rightarrow> (real list \<times> Stack) option" where
  "hysteresis_neighbour blur width blurStride t_l = (\<lambda>(xx, yy) (bbuf, stack). do {
     v \<leftarrow> rd bbuf (blur + (blurStride * yy + xx));
     if v \<ge> t_l then do {
       m \<leftarrow> rd (map_s stack) (width * yy + xx);
       if m = 0 then hysteresis_mark blur width blurStride xx yy (bbuf, stack)
       else Some (bbuf, stack) }
     else Some (bbuf, stack) })"

text \<open>The number of mask bytes that are still zero, and the measure of the \<open>while\<close> loop.\<close>

definition unvisited :: "8 word list \<Rightarrow> nat" where
  "unvisited m = length (filter (\<lambda>b. b = 0) m)"

definition hysteresis_measure :: "real list \<times> Stack \<Rightarrow> nat" where
  "hysteresis_measure = (\<lambda>(bbuf, stack). 2 * unvisited (map_s stack) + nat (index stack + 1))"

text \<open>
  The \<open>while\<close> loop (lines 755 to 767): an entry is popped and its nine neighbours
  (itself among them) are examined, row by row.
\<close>

function hysteresis_while ::
  "int \<Rightarrow> int \<Rightarrow> int \<Rightarrow> real \<Rightarrow> real list \<times> Stack \<Rightarrow> (real list \<times> Stack) option" where
  "hysteresis_while blur width blurStride t_l (bbuf, stack) =
     (if index stack > -1 then
        (case pop stack of
           None \<Rightarrow> None
         | Some (p, stack') \<Rightarrow>
             (case for_loop [(xx, yy). yy \<leftarrow> [snd p - 1..snd p + 1], xx \<leftarrow> [fst p - 1..fst p + 1]]
                     (hysteresis_neighbour blur width blurStride t_l) (bbuf, stack') of
                None \<Rightarrow> None
              | Some st \<Rightarrow> hysteresis_while blur width blurStride t_l st))
      else Some (bbuf, stack))"
  by pat_completeness auto

lemma unvisited_update:
  "i < length m \<Longrightarrow> m ! i = 0 \<Longrightarrow> v \<noteq> 0 \<Longrightarrow> Suc (unvisited (m[i := v])) = unvisited m"
  unfolding unvisited_def
proof (induction m arbitrary: i)
  case Nil
  then show ?case by simp
next
  case (Cons a m)
  then show ?case by (cases i) auto
qed

lemma hysteresis_mark_measure:
  assumes "hysteresis_mark blur w bs x y (bbuf, stack) = Some st'"
    and "rd (map_s stack) (w * y + x) = Some 0"
  shows "hysteresis_measure st' \<le> hysteresis_measure (bbuf, stack)"
proof -
  from assms(2) have r: "0 \<le> w * y + x" "nat (w * y + x) < length (map_s stack)"
    and z: "map_s stack ! nat (w * y + x) = 0"
    by (auto simp: rd_def split: if_splits)
  have u: "Suc (unvisited ((map_s stack)[nat (w * y + x) := UINT8_MAX])) = unvisited (map_s stack)"
    by (rule unvisited_update[OF r(2) z]) (simp add: UINT8_MAX_def)
  from assms(1) obtain b' p' where
    st': "st' = (b', stack\<lparr>map_s := (map_s stack)[nat (w * y + x) := UINT8_MAX],
                         pos := p', index := index stack + 1\<rparr>)"
    and i: "0 \<le> index stack + 1"
    by (auto simp: hysteresis_mark_def push_def wr_def Let_def split: if_splits Option.bind_splits)
  show ?thesis
    using u i unfolding st' hysteresis_measure_def by simp
qed

lemma hysteresis_neighbour_measure:
  assumes "hysteresis_neighbour blur w bs lo q st = Some st'"
  shows "hysteresis_measure st' \<le> hysteresis_measure st"
proof -
  obtain xx yy where q: "q = (xx, yy)" by (cases q)
  obtain bbuf stack where st: "st = (bbuf, stack)" by (cases st)
  show ?thesis
  proof (cases "st' = st")
    case True
    then show ?thesis by simp
  next
    case False
    with assms have "hysteresis_mark blur w bs xx yy (bbuf, stack) = Some st'"
      and "rd (map_s stack) (w * yy + xx) = Some 0"
      unfolding q st hysteresis_neighbour_def
      by (auto split: if_splits Option.bind_splits)
    then show ?thesis unfolding st by (rule hysteresis_mark_measure)
  qed
qed

lemma for_loop_measure:
  assumes "for_loop ks body s = Some s'"
    and "\<And>k s s'. body k s = Some s' \<Longrightarrow> f s' \<le> (f s :: nat)"
  shows "f s' \<le> f s"
  using assms(1)
proof (induction ks arbitrary: s)
  case Nil
  then show ?case by simp
next
  case (Cons k ks)
  then obtain s1 where 1: "body k s = Some s1" and 2: "for_loop ks body s1 = Some s'"
    by (auto split: option.splits)
  from Cons.IH[OF 2] assms(2)[OF 1] show ?case by simp
qed

termination hysteresis_while
proof (relation "measure (\<lambda>(blur, width, blurStride, t_l, st). hysteresis_measure st)")
  show "wf (measure (\<lambda>(blur, width, blurStride, t_l, st). hysteresis_measure st))" by simp
next
  fix blur width blurStride :: int and t_l :: real and bbuf :: "real list" and stack :: Stack
    and x2 :: "(int \<times> int) \<times> Stack" and p :: "int \<times> int" and stack' :: Stack and st :: "real list \<times> Stack"
  assume i: "- 1 < index stack" and po: "pop stack = Some x2" and x2: "(p, stack') = x2"
    and fl: "for_loop [(xx, yy). yy \<leftarrow> [snd p - 1..snd p + 1], xx \<leftarrow> [fst p - 1..fst p + 1]]
               (hysteresis_neighbour blur width blurStride t_l) (bbuf, stack') = Some st"
  have "hysteresis_measure st \<le> hysteresis_measure (bbuf, stack')"
    by (rule for_loop_measure[OF fl]) (rule hysteresis_neighbour_measure)
  moreover have "hysteresis_measure (bbuf, stack') < hysteresis_measure (bbuf, stack)"
    using i po x2 by (auto simp: pop_def hysteresis_measure_def split: Option.bind_splits)
  ultimately show "((blur, width, blurStride, t_l, st), (blur, width, blurStride, t_l, bbuf, stack))
        \<in> measure (\<lambda>(blur, width, blurStride, t_l, st). hysteresis_measure st)"
    by simp
qed

text \<open>
  The body of the two outer \<open>for\<close> loops (lines 748 to 767). The \<open>||\<close> of the source reads
  the mask only when the first test fails.
\<close>

definition hysteresis_pixel ::
  "int \<Rightarrow> int \<Rightarrow> int \<Rightarrow> real \<Rightarrow> real \<Rightarrow> int \<times> int \<Rightarrow> real list \<times> Stack
     \<Rightarrow> (real list \<times> Stack) option" where
  "hysteresis_pixel blur width blurStride t_h t_l = (\<lambda>(x, y) (bbuf, stack). do {
     v \<leftarrow> rd bbuf (blur + (blurStride * y + x));
     if v < t_h then Some (bbuf, stack)
     else do {
       m \<leftarrow> rd (map_s stack) (width * y + x);
       if m \<noteq> 0 then Some (bbuf, stack)
       else do {
         st \<leftarrow> hysteresis_mark blur width blurStride x y (bbuf, stack);
         hysteresis_while blur width blurStride t_l st } } })"

text \<open>
  \<open>hysteresis\<close> (lines 742 to 770). \<open>bbuf\<close> is the buffer \<open>blur\<close> points into; the result
  is the new buffer and the stack as the function leaves it.
\<close>

definition hysteresis ::
  "real list \<Rightarrow> int \<Rightarrow> Stack \<Rightarrow> int \<Rightarrow> int \<Rightarrow> int \<Rightarrow> real \<Rightarrow> real \<Rightarrow> (real list \<times> Stack) option" where
  "hysteresis bbuf blur stack width height blurStride t_h t_l = do {
     m \<leftarrow> fill_n (map_s stack) 0 (width * height) 0;
     for_loop [(x, y). y \<leftarrow> [1..height - 2], x \<leftarrow> [1..width - 2]]
       (hysteresis_pixel blur width blurStride t_h t_l)
       (bbuf, stack\<lparr>map_s := m, index := - 1\<rparr>) }"

text \<open>The closed interval from \<open>0\<close> to \<open>pi\<close>.\<close>

definition dir_ok :: "real \<Rightarrow> bool" where
  "dir_ok v \<longleftrightarrow> 0 \<le> v \<and> v \<le> pi"


section \<open>Planes and the words of the specification\<close>

text \<open>
  The cell of the pixel \<open>(x, y)\<close> in a buffer, for a plane that starts at the index \<open>p\<close> and
  has the row stride \<open>stride\<close>; and the condition that a plane of \<open>w\<close> by \<open>h\<close> pixels lies
  inside its buffer, with rows that do not overlap.
\<close>

definition pixel :: "'a list \<Rightarrow> int \<Rightarrow> int \<Rightarrow> int \<Rightarrow> int \<Rightarrow> 'a" where
  "pixel buf p stride x y = buf ! nat (p + (stride * y + x))"

definition plane_in :: "'a list \<Rightarrow> int \<Rightarrow> int \<Rightarrow> int \<Rightarrow> int \<Rightarrow> bool" where
  "plane_in buf p stride w h \<longleftrightarrow>
     0 < w \<and> 0 < h \<and> w \<le> stride \<and> 0 \<le> p \<and> p + (stride * (h - 1) + w) \<le> int (length buf)"

text \<open>
  Non-maximum suppression in the words of the specification (section 4.4), for a
  gradient \<open>G\<close> and a direction \<open>D\<close> given as functions of the pixel: the bin is
  \<open>floor (direction * 4 / pi + 0.5)\<close>, a value of \<open>4\<close> or more wraps to \<open>0\<close>; bin \<open>0\<close> compares
  with the left and right neighbours, bin \<open>1\<close> with the upper right and lower left, bin
  \<open>2\<close> with the upper and lower, bin \<open>3\<close> with the upper left and lower right; the pixel
  keeps its magnitude if it is at least both, and becomes \<open>- FLT_MAX\<close> otherwise. The
  pixels of the first and last row and column are \<open>- FLT_MAX\<close>. Row \<open>y - 1\<close> is the upper
  row.
\<close>

definition nms_spec :: "(int \<Rightarrow> int \<Rightarrow> real) \<Rightarrow> (int \<Rightarrow> int \<Rightarrow> real) \<Rightarrow> int \<Rightarrow> int \<Rightarrow> int \<Rightarrow> int \<Rightarrow> real" where
  "nms_spec G D w h x y =
     (if 1 \<le> x \<and> x \<le> w - 2 \<and> 1 \<le> y \<and> y \<le> h - 2 then
        (let b = \<lfloor>D x y * 4 / pi + 0.5\<rfloor>;
             bin = (if b \<ge> 4 then 0 else b);
             (dx, dy) = (if bin = 0 then (1, 0)
                         else if bin = 1 then (1, - 1)
                         else if bin = 2 then (0, - 1)
                         else (- 1, - 1))
         in if G x y \<ge> G (x + dx) (y + dy) \<and> G x y \<ge> G (x - dx) (y - dy)
            then G x y else - FLT_MAX)
      else - FLT_MAX)"

section \<open>Hysteresis with a record of the pushes\<close>

text \<open>
  To state what happens at every push, the loops of \<open>hysteresis\<close> are written a second
  time with a log beside the state: each push appends the pixel, the mask byte as it was
  before the three statements that confirm the pixel, the mask byte as it is between the
  second statement and the call of \<open>push\<close>, and the index that \<open>push\<close> leaves. The
  log is never read. The lemma
  \<open>hysteresis_log_erase\<close> shows that dropping the lg gives \<open>hysteresis\<close> itself.
\<close>

record push_event =
  ev_pixel :: "int \<times> int"
  ev_mask_before :: "8 word"
  ev_mask_at_push :: "8 word"
  ev_index :: int

definition hysteresis_mark_log ::
  "int \<Rightarrow> int \<Rightarrow> int \<Rightarrow> int \<Rightarrow> int \<Rightarrow> (real list \<times> Stack) \<times> push_event list
     \<Rightarrow> ((real list \<times> Stack) \<times> push_event list) option" where
  "hysteresis_mark_log blur width blurStride x y = (\<lambda>((bbuf, stack), lg). do {
     before \<leftarrow> rd (map_s stack) (width * y + x);
     bbuf \<leftarrow> wr bbuf (blur + (blurStride * y + x)) FLT_MAX;
     m \<leftarrow> wr (map_s stack) (width * y + x) UINT8_MAX;
     at_push \<leftarrow> rd m (width * y + x);
     stack \<leftarrow> push (stack\<lparr>map_s := m\<rparr>) x y;
     Some ((bbuf, stack),
           lg @ [\<lparr>ev_pixel = (x, y), ev_mask_before = before, ev_mask_at_push = at_push,
                    ev_index = index stack\<rparr>]) })"

definition hysteresis_neighbour_log ::
  "int \<Rightarrow> int \<Rightarrow> int \<Rightarrow> real \<Rightarrow> int \<times> int \<Rightarrow> (real list \<times> Stack) \<times> push_event list
     \<Rightarrow> ((real list \<times> Stack) \<times> push_event list) option" where
  "hysteresis_neighbour_log blur width blurStride t_l = (\<lambda>(xx, yy) ((bbuf, stack), lg). do {
     v \<leftarrow> rd bbuf (blur + (blurStride * yy + xx));
     if v \<ge> t_l then do {
       m \<leftarrow> rd (map_s stack) (width * yy + xx);
       if m = 0 then hysteresis_mark_log blur width blurStride xx yy ((bbuf, stack), lg)
       else Some ((bbuf, stack), lg) }
     else Some ((bbuf, stack), lg) })"

lemma hysteresis_mark_log_erase:
  "map_option fst (hysteresis_mark_log blur w bs x y (st, lg)) = hysteresis_mark blur w bs x y st"
proof (cases st)
  case (Pair bbuf stack)
  show ?thesis
    unfolding Pair hysteresis_mark_log_def hysteresis_mark_def push_def
    by (auto simp: rd_def wr_def Let_def split: Option.bind_splits if_splits)
qed

lemma hysteresis_neighbour_log_erase:
  "map_option fst (hysteresis_neighbour_log blur w bs lo q (st, lg)) = hysteresis_neighbour blur w bs lo q st"
proof (cases st; cases q)
  fix bbuf stack xx yy
  assume "st = (bbuf, stack)" "q = (xx, yy)"
  then show ?thesis
    using hysteresis_mark_log_erase[of blur w bs xx yy "(bbuf, stack)" lg]
    unfolding hysteresis_neighbour_log_def hysteresis_neighbour_def
    by (auto split: Option.bind_splits if_splits)
qed

lemma for_loop_erase:
  assumes "\<And>k s l. map_option fst (body' k (s, l)) = body k s"
  shows "map_option fst (for_loop ks body' (s, l)) = for_loop ks body s"
proof (induction ks arbitrary: s l)
  case Nil
  then show ?case by simp
next
  case (Cons k ks)
  show ?case
  proof (cases "body' k (s, l)")
    case None
    then show ?thesis using assms[of k s l] by simp
  next
    case (Some r)
    obtain s1 l1 where r: "r = (s1, l1)" by (cases r)
    from Some assms[of k s l] have "body k s = Some s1" by (simp add: r)
    then show ?thesis using Some Cons.IH[of s1 l1] by (simp add: r)
  qed
qed

function hysteresis_while_log ::
  "int \<Rightarrow> int \<Rightarrow> int \<Rightarrow> real \<Rightarrow> (real list \<times> Stack) \<times> push_event list
     \<Rightarrow> ((real list \<times> Stack) \<times> push_event list) option" where
  "hysteresis_while_log blur width blurStride t_l ((bbuf, stack), lg) =
     (if index stack > -1 then
        (case pop stack of
           None \<Rightarrow> None
         | Some (p, stack') \<Rightarrow>
             (case for_loop [(xx, yy). yy \<leftarrow> [snd p - 1..snd p + 1], xx \<leftarrow> [fst p - 1..fst p + 1]]
                     (hysteresis_neighbour_log blur width blurStride t_l) ((bbuf, stack'), lg) of
                None \<Rightarrow> None
              | Some st \<Rightarrow> hysteresis_while_log blur width blurStride t_l st))
      else Some ((bbuf, stack), lg))"
  by pat_completeness auto

termination hysteresis_while_log
proof (relation "measure (\<lambda>(blur, width, blurStride, t_l, st). hysteresis_measure (fst st))")
  show "wf (measure (\<lambda>(blur, width, blurStride, t_l, st). hysteresis_measure (fst st)))" by simp
next
  fix blur width blurStride :: int and t_l :: real and bbuf :: "real list" and stack :: Stack
    and lg :: "push_event list"
    and x2 :: "(int \<times> int) \<times> Stack" and p :: "int \<times> int" and stack' :: Stack
    and st :: "(real list \<times> Stack) \<times> push_event list"
  assume i: "- 1 < index stack" and po: "pop stack = Some x2" and x2: "(p, stack') = x2"
    and fl: "for_loop [(xx, yy). yy \<leftarrow> [snd p - 1..snd p + 1], xx \<leftarrow> [fst p - 1..fst p + 1]]
               (hysteresis_neighbour_log blur width blurStride t_l) ((bbuf, stack'), lg) = Some st"
  have "map_option fst (for_loop [(xx, yy). yy \<leftarrow> [snd p - 1..snd p + 1], xx \<leftarrow> [fst p - 1..fst p + 1]]
               (hysteresis_neighbour_log blur width blurStride t_l) ((bbuf, stack'), lg))
        = for_loop [(xx, yy). yy \<leftarrow> [snd p - 1..snd p + 1], xx \<leftarrow> [fst p - 1..fst p + 1]]
               (hysteresis_neighbour blur width blurStride t_l) (bbuf, stack')"
    by (rule for_loop_erase) (rule hysteresis_neighbour_log_erase)
  then have "for_loop [(xx, yy). yy \<leftarrow> [snd p - 1..snd p + 1], xx \<leftarrow> [fst p - 1..fst p + 1]]
               (hysteresis_neighbour blur width blurStride t_l) (bbuf, stack') = Some (fst st)"
    unfolding fl by simp
  then have "hysteresis_measure (fst st) \<le> hysteresis_measure (bbuf, stack')"
    by (rule for_loop_measure) (rule hysteresis_neighbour_measure)
  moreover have "hysteresis_measure (bbuf, stack') < hysteresis_measure (bbuf, stack)"
    using i po x2 by (auto simp: pop_def hysteresis_measure_def split: Option.bind_splits)
  ultimately show "((blur, width, blurStride, t_l, st), (blur, width, blurStride, t_l, (bbuf, stack), lg))
        \<in> measure (\<lambda>(blur, width, blurStride, t_l, st). hysteresis_measure (fst st))"
    by simp
qed

definition hysteresis_pixel_log ::
  "int \<Rightarrow> int \<Rightarrow> int \<Rightarrow> real \<Rightarrow> real \<Rightarrow> int \<times> int \<Rightarrow> (real list \<times> Stack) \<times> push_event list
     \<Rightarrow> ((real list \<times> Stack) \<times> push_event list) option" where
  "hysteresis_pixel_log blur width blurStride t_h t_l = (\<lambda>(x, y) ((bbuf, stack), lg). do {
     v \<leftarrow> rd bbuf (blur + (blurStride * y + x));
     if v < t_h then Some ((bbuf, stack), lg)
     else do {
       m \<leftarrow> rd (map_s stack) (width * y + x);
       if m \<noteq> 0 then Some ((bbuf, stack), lg)
       else do {
         st \<leftarrow> hysteresis_mark_log blur width blurStride x y ((bbuf, stack), lg);
         hysteresis_while_log blur width blurStride t_l st } } })"

definition hysteresis_log ::
  "real list \<Rightarrow> int \<Rightarrow> Stack \<Rightarrow> int \<Rightarrow> int \<Rightarrow> int \<Rightarrow> real \<Rightarrow> real
     \<Rightarrow> ((real list \<times> Stack) \<times> push_event list) option" where
  "hysteresis_log bbuf blur stack width height blurStride t_h t_l = do {
     m \<leftarrow> fill_n (map_s stack) 0 (width * height) 0;
     for_loop [(x, y). y \<leftarrow> [1..height - 2], x \<leftarrow> [1..width - 2]]
       (hysteresis_pixel_log blur width blurStride t_h t_l)
       ((bbuf, stack\<lparr>map_s := m, index := - 1\<rparr>), []) }"

lemma hysteresis_while_log_erase:
  "map_option fst (hysteresis_while_log blur w bs lo (st, lg)) = hysteresis_while blur w bs lo st"
proof (induction blur w bs lo "(st, lg)" arbitrary: st lg rule: hysteresis_while_log.induct)
  case (1 blur w bs lo bbuf stack lg)
  show ?case
  proof (cases "index stack > -1")
    case False
    then show ?thesis by simp
  next
    case True
    show ?thesis
    proof (cases "pop stack")
      case None
      then show ?thesis using True by simp
    next
      case (Some r)
      obtain p stack' where r: "r = (p, stack')" by (cases r)
      let ?ns = "[(xx, yy). yy \<leftarrow> [snd p - 1..snd p + 1], xx \<leftarrow> [fst p - 1..fst p + 1]]"
      have er: "map_option fst (for_loop ?ns (hysteresis_neighbour_log blur w bs lo) ((bbuf, stack'), lg))
            = for_loop ?ns (hysteresis_neighbour blur w bs lo) (bbuf, stack')"
        by (rule for_loop_erase) (rule hysteresis_neighbour_log_erase)
      show ?thesis
      proof (cases "for_loop ?ns (hysteresis_neighbour_log blur w bs lo) ((bbuf, stack'), lg)")
        case None
        then show ?thesis using True Some r er by simp
      next
        case (Some r2)
        obtain st2 lg2 where r2: "r2 = (st2, lg2)" by (cases r2)
        have "map_option fst (hysteresis_while_log blur w bs lo (st2, lg2)) = hysteresis_while blur w bs lo st2"
          by (rule "1.hyps"[OF True \<open>pop stack = Some r\<close> r[symmetric] Some[unfolded r2]])
        moreover have "for_loop ?ns (hysteresis_neighbour blur w bs lo) (bbuf, stack') = Some st2"
          using er unfolding Some r2 by simp
        ultimately show ?thesis using True \<open>pop stack = Some r\<close> r Some by (simp add: r2)
      qed
    qed
  qed
qed

lemma hysteresis_pixel_log_erase:
  "map_option fst (hysteresis_pixel_log blur w bs hi lo q (st, lg)) = hysteresis_pixel blur w bs hi lo q st"
proof (cases st; cases q)
  fix bbuf stack x y
  assume a: "st = (bbuf, stack)" "q = (x, y)"
  have m: "map_option fst (hysteresis_mark_log blur w bs x y ((bbuf, stack), lg))
             = hysteresis_mark blur w bs x y (bbuf, stack)"
    by (rule hysteresis_mark_log_erase)
  show ?thesis
  proof (cases "hysteresis_mark_log blur w bs x y ((bbuf, stack), lg)")
    case None
    then show ?thesis
      using m unfolding a hysteresis_pixel_log_def hysteresis_pixel_def
      by (auto split: Option.bind_splits if_splits)
  next
    case (Some r)
    obtain st2 lg2 where r: "r = (st2, lg2)" by (cases r)
    show ?thesis
      using m Some hysteresis_while_log_erase[of blur w bs lo st2 lg2]
      unfolding a hysteresis_pixel_log_def hysteresis_pixel_def r
      by (auto split: Option.bind_splits if_splits)
  qed
qed

lemma hysteresis_log_erase:
  "map_option fst (hysteresis_log bbuf blur stack w h bs hi lo) = hysteresis bbuf blur stack w h bs hi lo"
  unfolding hysteresis_log_def hysteresis_def
  using for_loop_erase[of "hysteresis_pixel_log blur w bs hi lo" "hysteresis_pixel blur w bs hi lo",
      OF hysteresis_pixel_log_erase]
  by (auto split: Option.bind_splits)

section \<open>The words of the specification on hysteresis\<close>

text \<open>
  Pixels are pairs \<open>(x, y)\<close>. A pixel is confirmed, in the words of the specification
  (section 4.5), when an 8-connected chain of pixels of the plane with a value of at
  least \<open>t_l\<close> leads to it from an interior pixel with a value of at least \<open>t_h\<close>; \<open>V\<close> is
  the suppressed map before the pass.
\<close>

definition interior :: "int \<Rightarrow> int \<Rightarrow> int \<times> int \<Rightarrow> bool" where
  "interior w h p \<longleftrightarrow> 1 \<le> fst p \<and> fst p \<le> w - 2 \<and> 1 \<le> snd p \<and> snd p \<le> h - 2"

definition in_plane :: "int \<Rightarrow> int \<Rightarrow> int \<times> int \<Rightarrow> bool" where
  "in_plane w h p \<longleftrightarrow> 0 \<le> fst p \<and> fst p < w \<and> 0 \<le> snd p \<and> snd p < h"

definition adjacent8 :: "int \<times> int \<Rightarrow> int \<times> int \<Rightarrow> bool" where
  "adjacent8 p q \<longleftrightarrow> p \<noteq> q \<and> \<bar>fst p - fst q\<bar> \<le> 1 \<and> \<bar>snd p - snd q\<bar> \<le> 1"

inductive confirmed :: "(int \<times> int \<Rightarrow> real) \<Rightarrow> int \<Rightarrow> int \<Rightarrow> real \<Rightarrow> real \<Rightarrow> int \<times> int \<Rightarrow> bool"
  for V w h t_h t_l where
  seed: "interior w h p \<Longrightarrow> V p \<ge> t_h \<Longrightarrow> confirmed V w h t_h t_l p"
| chain: "confirmed V w h t_h t_l p \<Longrightarrow> adjacent8 p q \<Longrightarrow> in_plane w h q \<Longrightarrow> V q \<ge> t_l
          \<Longrightarrow> confirmed V w h t_h t_l q"

definition plane_value :: "real list \<Rightarrow> int \<Rightarrow> int \<Rightarrow> int \<times> int \<Rightarrow> real" where
  "plane_value buf p stride = (\<lambda>(x, y). pixel buf p stride x y)"

text \<open>
  What the proof reads off a state: the pixels whose mask byte is set, and the entries
  of the stack up to the index.
\<close>

definition marked :: "int \<Rightarrow> Stack \<Rightarrow> int \<times> int \<Rightarrow> bool" where
  "marked w s p \<longleftrightarrow> map_s s ! nat (w * snd p + fst p) \<noteq> 0"

definition stack_entries :: "Stack \<Rightarrow> (int \<times> int) list" where
  "stack_entries s = take (nat (index s + 1)) (pos s)"

text \<open>
  The invariant of the pass, for the buffer \<open>bbuf0\<close> it started from. \<open>Pend\<close> holds the
  pairs of a popped pixel and a neighbour that the inner loops have yet to examine.
\<close>

definition hyst_inv ::
  "real list \<Rightarrow> int \<Rightarrow> int \<Rightarrow> int \<Rightarrow> int \<Rightarrow> real \<Rightarrow> real \<Rightarrow> ((int \<times> int) \<times> (int \<times> int)) set
     \<Rightarrow> real list \<times> Stack \<Rightarrow> bool" where
  "hyst_inv bbuf0 b bs w h hi lo Pend st \<longleftrightarrow> (case st of (bb, s) \<Rightarrow>
     length bb = length bbuf0 \<and>
     w * h \<le> int (length (map_s s)) \<and> w * h \<le> int (length (pos s)) \<and>
     - 1 \<le> index s \<and>
     index s + 1 + int (unvisited (take (nat (w * h)) (map_s s))) \<le> w * h \<and>
     (\<forall>p. in_plane w h p \<and> marked w s p \<longrightarrow>
          interior w h p \<and> confirmed (plane_value bbuf0 b bs) w h hi lo p) \<and>
     (\<forall>p\<in>set (stack_entries s). in_plane w h p \<and> marked w s p) \<and>
     (\<forall>p q. in_plane w h p \<and> marked w s p \<and> adjacent8 p q \<and> in_plane w h q \<and>
            lo \<le> plane_value bbuf0 b bs q \<longrightarrow>
            marked w s q \<or> p \<in> set (stack_entries s) \<or> (p, q) \<in> Pend) \<and>
     (\<forall>i. 0 \<le> i \<and> i < int (length bbuf0) \<longrightarrow>
          bb ! nat i =
            (if \<exists>p. in_plane w h p \<and> marked w s p \<and> i = b + (bs * snd p + fst p)
             then FLT_MAX else bbuf0 ! nat i)))"

text \<open>The invariant of the log.\<close>

definition log_inv :: "int \<Rightarrow> int \<Rightarrow> Stack \<Rightarrow> push_event list \<Rightarrow> bool" where
  "log_inv w h s lg \<longleftrightarrow>
     (\<forall>e\<in>set lg. ev_mask_before e = 0 \<and> ev_mask_at_push e \<noteq> 0 \<and>
                  0 \<le> ev_index e \<and> ev_index e < w * h \<and>
                  in_plane w h (ev_pixel e) \<and> marked w s (ev_pixel e)) \<and>
     distinct (map ev_pixel lg)"

text \<open>
  The condition on the plane that the pass starts from: it lies in its buffer, and its
  first and last row and column are below the low threshold (non-maximum suppression
  leaves \<open>- FLT_MAX\<close> there).
\<close>

definition hyst_pre :: "real list \<Rightarrow> int \<Rightarrow> int \<Rightarrow> int \<Rightarrow> int \<Rightarrow> real \<Rightarrow> bool" where
  "hyst_pre bbuf0 b bs w h lo \<longleftrightarrow>
     plane_in bbuf0 b bs w h \<and>
     (\<forall>p. in_plane w h p \<and> \<not> interior w h p \<longrightarrow> plane_value bbuf0 b bs p < lo)"

text \<open>
  A plane of four columns and three rows as non-maximum suppression leaves it, with two
  interior pixels, and a stack that holds what an earlier pass left: the example of the
  witnesses below.
\<close>

definition ex_plane :: "real list" where
  "ex_plane = [- FLT_MAX, - FLT_MAX, - FLT_MAX, - FLT_MAX,
               - FLT_MAX, 10, 2, - FLT_MAX,
               - FLT_MAX, - FLT_MAX, - FLT_MAX, - FLT_MAX]"

definition ex_stack :: Stack where
  "ex_stack = \<lparr>map_s = replicate 12 7, pos = replicate 12 (0, 0), index = 5\<rparr>"

section \<open>Blur and output\<close>

text \<open>
  The functions below are those of the portable path of the source (the \<open>#else\<close> branch
  of \<open>VS_TARGET_CPU_X86\<close>): the templates over the sample type \<open>T\<close> and their
  specialisations for \<open>float\<close>. A sample of the source or destination plane is a \<open>real\<close>
  also when \<open>T\<close> is an integer type; \<open>store_T\<close> is the conversion of an \<open>int\<close> to \<open>T\<close> when it is
  assigned to a sample of the destination, which wraps around.
\<close>

datatype sample_T = T_uint8 | T_uint16 | T_float

definition sizeof_T :: "sample_T \<Rightarrow> int" where
  "sizeof_T T = (case T of T_uint8 \<Rightarrow> 1 | T_uint16 \<Rightarrow> 2 | T_float \<Rightarrow> 4)"

definition store_T :: "sample_T \<Rightarrow> int \<Rightarrow> real" where
  "store_T T v = real_of_int (v mod 2 ^ nat (8 * sizeof_T T))"

text \<open>
  \<open>gaussianBlurHorizontal\<close> (lines 510 to 524). \<open>rbuf\<close> is the row buffer that \<open>buffer\<close>
  points into, \<open>wbuf\<close> the kernel, and \<open>weights\<close> points to its middle.
\<close>

definition gaussianBlurHorizontal ::
  "real list \<Rightarrow> int \<Rightarrow> real list \<Rightarrow> int \<Rightarrow> real list \<Rightarrow> int \<Rightarrow> int \<Rightarrow> int
     \<Rightarrow> (real list \<times> real list) option" where
  "gaussianBlurHorizontal rbuf buffer bbuf blur wbuf weights width radius = do {
     rbuf \<leftarrow> for_loop [1..radius]
       (\<lambda>i rbuf. do {
          v \<leftarrow> rd rbuf (buffer + (i - 1));
          rbuf \<leftarrow> wr rbuf (buffer + (- i)) v;
          v \<leftarrow> rd rbuf (buffer + (width - i));
          wr rbuf (buffer + (width - 1 + i)) v })
       rbuf;
     bbuf \<leftarrow> for_loop [0..width - 1]
       (\<lambda>x bbuf. do {
          sum \<leftarrow> for_loop [- radius..radius]
            (\<lambda>i sum. do {
               v \<leftarrow> rd rbuf (buffer + (x + i));
               wt \<leftarrow> rd wbuf (weights + i);
               Some (sum + v * wt) })
            0;
          wr bbuf (blur + x) sum })
       bbuf;
     Some (rbuf, bbuf) }"

text \<open>
  The window of row pointers that \<open>gaussianBlurVertical\<close> sets up (lines 529 to 536), and
  its move to the next row (lines 550 to 555).
\<close>

definition gaussianBlurVertical_window :: "int \<Rightarrow> int \<Rightarrow> int \<Rightarrow> int list" where
  "gaussianBlurVertical_window srcp0 stride radius =
     fold (\<lambda>i srcp.
             let srcp = srcp[nat (radius - i) := srcp ! nat (radius + i - 1)]
             in srcp[nat (radius + i) := srcp ! nat radius + stride * i])
          [1..radius] ((replicate (nat (radius * 2 + 1)) 0)[nat radius := srcp0])"

definition gaussianBlurVertical_advance :: "int list \<Rightarrow> int \<Rightarrow> int \<Rightarrow> int \<Rightarrow> int \<Rightarrow> int \<Rightarrow> int list" where
  "gaussianBlurVertical_advance srcp y height stride radius diameter =
     (let srcp = fold (\<lambda>i srcp. srcp[nat i := srcp ! nat (i + 1)]) [0..diameter - 2] srcp
      in if y < height - 1 - radius
         then srcp[nat (diameter - 1) := srcp ! nat (diameter - 1) + stride]
         else if y > height - 1 - radius
         then srcp[nat (diameter - 1) := srcp ! nat (diameter - 1) - stride]
         else srcp)"

text \<open>
  \<open>gaussianBlurVertical<T>\<close> (lines 526 to 560) and \<open>gaussianBlurVertical<float>\<close> (lines
  562 to 596); \<open>sbuf\<close> holds the samples of the source plane.
\<close>

definition gaussianBlurVertical_T ::
  "real list \<Rightarrow> int \<Rightarrow> real list \<Rightarrow> int \<Rightarrow> real list \<Rightarrow> int \<Rightarrow> real list \<Rightarrow> int \<Rightarrow> int \<Rightarrow> int \<Rightarrow> int
     \<Rightarrow> int \<Rightarrow> int \<Rightarrow> real \<Rightarrow> (real list \<times> real list) option" where
  "gaussianBlurVertical_T sbuf srcp0 rbuf buffer bbuf blur wbuf weights width height stride
       blurStride radius offset =
     (let diameter = radius * 2 + 1;
          srcp = gaussianBlurVertical_window srcp0 stride radius
      in do {
        (rbuf, bbuf, srcp, blur) \<leftarrow> for_loop [0..height - 1]
          (\<lambda>y (rbuf, bbuf, srcp, blur). do {
             rbuf \<leftarrow> for_loop [0..width - 1]
               (\<lambda>x rbuf. do {
                  sum \<leftarrow> for_loop [0..diameter - 1]
                    (\<lambda>i sum. do {
                       p \<leftarrow> rd srcp i;
                       v \<leftarrow> rd sbuf (p + x);
                       wt \<leftarrow> rd wbuf (weights + i);
                       Some (sum + v * wt) })
                    0;
                  wr rbuf (buffer + x) sum })
               rbuf;
             (rbuf, bbuf) \<leftarrow>
               gaussianBlurHorizontal rbuf buffer bbuf blur wbuf (weights + radius) width radius;
             Some (rbuf, bbuf, gaussianBlurVertical_advance srcp y height stride radius diameter,
                   blur + blurStride) })
          (rbuf, bbuf, srcp, blur);
        Some (rbuf, bbuf) })"

definition gaussianBlurVertical_float ::
  "real list \<Rightarrow> int \<Rightarrow> real list \<Rightarrow> int \<Rightarrow> real list \<Rightarrow> int \<Rightarrow> real list \<Rightarrow> int \<Rightarrow> int \<Rightarrow> int \<Rightarrow> int
     \<Rightarrow> int \<Rightarrow> int \<Rightarrow> real \<Rightarrow> (real list \<times> real list) option" where
  "gaussianBlurVertical_float sbuf srcp0 rbuf buffer bbuf blur wbuf weights width height stride
       blurStride radius offset =
     (let diameter = radius * 2 + 1;
          srcp = gaussianBlurVertical_window srcp0 stride radius
      in do {
        (rbuf, bbuf, srcp, blur) \<leftarrow> for_loop [0..height - 1]
          (\<lambda>y (rbuf, bbuf, srcp, blur). do {
             rbuf \<leftarrow> for_loop [0..width - 1]
               (\<lambda>x rbuf. do {
                  sum \<leftarrow> for_loop [0..diameter - 1]
                    (\<lambda>i sum. do {
                       p \<leftarrow> rd srcp i;
                       v \<leftarrow> rd sbuf (p + x);
                       wt \<leftarrow> rd wbuf (weights + i);
                       Some (sum + (v + offset) * wt) })
                    0;
                  wr rbuf (buffer + x) sum })
               rbuf;
             (rbuf, bbuf) \<leftarrow>
               gaussianBlurHorizontal rbuf buffer bbuf blur wbuf (weights + radius) width radius;
             Some (rbuf, bbuf, gaussianBlurVertical_advance srcp y height stride radius diameter,
                   blur + blurStride) })
          (rbuf, bbuf, srcp, blur);
        Some (rbuf, bbuf) })"

text \<open>
  The output passes all have the shape of two nested loops that read one or two planes
  and write the destination row by row; \<open>plane_pass\<close> is that shape. The value of a
  sample is computed by \<open>f\<close> from the three row pointers and the column, and may read
  outside a buffer.
\<close>

definition plane_pass ::
  "(int \<Rightarrow> int \<Rightarrow> int \<Rightarrow> real option) \<Rightarrow> real list \<Rightarrow> int \<Rightarrow> int \<Rightarrow> int \<Rightarrow> int \<Rightarrow> int \<Rightarrow> int \<Rightarrow> int \<Rightarrow> int
     \<Rightarrow> real list option" where
  "plane_pass f obuf dstp p q width height dstStride pStride qStride =
     map_option fst
       (for_loop [0..height - 1]
          (\<lambda>y (obuf, dstp, p, q). do {
             obuf \<leftarrow> for_loop [0..width - 1]
               (\<lambda>x obuf. do { v \<leftarrow> f p q x; wr obuf (dstp + x) v })
               obuf;
             Some (obuf, dstp + dstStride, p + pStride, q + qStride) })
          (obuf, dstp, p, q))"

text \<open>\<open>outputGB\<close> (lines 669 to 691).\<close>

definition outputGB_T ::
  "sample_T \<Rightarrow> real list \<Rightarrow> int \<Rightarrow> real list \<Rightarrow> int \<Rightarrow> int \<Rightarrow> int \<Rightarrow> int \<Rightarrow> int \<Rightarrow> int \<Rightarrow> real \<Rightarrow> real
     \<Rightarrow> real list option" where
  "outputGB_T T bbuf blur obuf dstp width height stride blurStride peak offset upper =
     plane_pass
       (\<lambda>blur q x. do {
          v \<leftarrow> rd bbuf (blur + x);
          Some (store_T T (min (static_cast_int (v + 0.5)) peak)) })
       obuf dstp blur 0 width height stride blurStride 0"

definition outputGB_float ::
  "real list \<Rightarrow> int \<Rightarrow> real list \<Rightarrow> int \<Rightarrow> int \<Rightarrow> int \<Rightarrow> int \<Rightarrow> int \<Rightarrow> int \<Rightarrow> real \<Rightarrow> real
     \<Rightarrow> real list option" where
  "outputGB_float bbuf blur obuf dstp width height stride blurStride peak offset upper =
     plane_pass
       (\<lambda>blur q x. do {
          v \<leftarrow> rd bbuf (blur + x);
          Some (min (v - offset) upper) })
       obuf dstp blur 0 width height stride blurStride 0"

text \<open>\<open>binarizeCE\<close> (lines 693 to 715); the parameter \<open>peak\<close> of the template has the type \<open>T\<close>.\<close>

definition binarizeCE_T ::
  "sample_T \<Rightarrow> real list \<Rightarrow> int \<Rightarrow> real list \<Rightarrow> int \<Rightarrow> int \<Rightarrow> int \<Rightarrow> int \<Rightarrow> int \<Rightarrow> int \<Rightarrow> real \<Rightarrow> real
     \<Rightarrow> real list option" where
  "binarizeCE_T T bbuf blur obuf dstp width height stride blurStride peak lower upper =
     plane_pass
       (\<lambda>blur q x. do {
          v \<leftarrow> rd bbuf (blur + x);
          Some (if v = FLT_MAX then store_T T peak else 0) })
       obuf dstp blur 0 width height stride blurStride 0"

definition binarizeCE_float ::
  "real list \<Rightarrow> int \<Rightarrow> real list \<Rightarrow> int \<Rightarrow> int \<Rightarrow> int \<Rightarrow> int \<Rightarrow> int \<Rightarrow> real \<Rightarrow> real \<Rightarrow> real
     \<Rightarrow> real list option" where
  "binarizeCE_float bbuf blur obuf dstp width height stride blurStride peak lower upper =
     plane_pass
       (\<lambda>blur q x. do {
          v \<leftarrow> rd bbuf (blur + x);
          Some (if v = FLT_MAX then upper else lower) })
       obuf dstp blur 0 width height stride blurStride 0"

text \<open>\<open>discretizeGM\<close> (lines 717 to 739).\<close>

definition discretizeGM_T ::
  "sample_T \<Rightarrow> real list \<Rightarrow> int \<Rightarrow> real list \<Rightarrow> int \<Rightarrow> int \<Rightarrow> int \<Rightarrow> int \<Rightarrow> real \<Rightarrow> int \<Rightarrow> real \<Rightarrow> real
     \<Rightarrow> real list option" where
  "discretizeGM_T T gbuf gradient obuf dstp width height stride magnitude peak offset upper =
     plane_pass
       (\<lambda>gradient q x. do {
          v \<leftarrow> rd gbuf (gradient + x);
          Some (store_T T (min (static_cast_int (v * magnitude + 0.5)) peak)) })
       obuf dstp gradient 0 width height stride stride 0"

definition discretizeGM_float ::
  "real list \<Rightarrow> int \<Rightarrow> real list \<Rightarrow> int \<Rightarrow> int \<Rightarrow> int \<Rightarrow> int \<Rightarrow> real \<Rightarrow> int \<Rightarrow> real \<Rightarrow> real
     \<Rightarrow> real list option" where
  "discretizeGM_float gbuf gradient obuf dstp width height stride magnitude peak offset upper =
     plane_pass
       (\<lambda>gradient q x. do {
          v \<leftarrow> rd gbuf (gradient + x);
          Some (min (v * magnitude - offset) upper) })
       obuf dstp gradient 0 width height stride stride 0"

text \<open>\<open>discretizeDM_T\<close> (lines 772 to 796) and \<open>discretizeDM\<close> (lines 798 to 818).\<close>

definition discretizeDM_T_T ::
  "sample_T \<Rightarrow> real list \<Rightarrow> int \<Rightarrow> real list \<Rightarrow> int \<Rightarrow> real list \<Rightarrow> int \<Rightarrow> int \<Rightarrow> int \<Rightarrow> int \<Rightarrow> int \<Rightarrow> int
     \<Rightarrow> real \<Rightarrow> real \<Rightarrow> real list option" where
  "discretizeDM_T_T T bbuf blur dbuf direction obuf dstp width height stride blurStride bins
       offset lower =
     plane_pass
       (\<lambda>blur direction x. do {
          v \<leftarrow> rd bbuf (blur + x);
          if v = FLT_MAX then do {
            dir \<leftarrow> rd dbuf (direction + x);
            Some (store_T T (getBin_T dir bins)) }
          else Some 0 })
       obuf dstp blur direction width height stride blurStride stride"

definition discretizeDM_T_float ::
  "real list \<Rightarrow> int \<Rightarrow> real list \<Rightarrow> int \<Rightarrow> real list \<Rightarrow> int \<Rightarrow> int \<Rightarrow> int \<Rightarrow> int \<Rightarrow> int \<Rightarrow> int
     \<Rightarrow> real \<Rightarrow> real \<Rightarrow> real list option" where
  "discretizeDM_T_float bbuf blur dbuf direction obuf dstp width height stride blurStride bins
       offset lower =
     plane_pass
       (\<lambda>blur direction x. do {
          v \<leftarrow> rd bbuf (blur + x);
          if v = FLT_MAX then do {
            dir \<leftarrow> rd dbuf (direction + x);
            Some (getBin_float dir bins - offset) }
          else Some lower })
       obuf dstp blur direction width height stride blurStride stride"

definition discretizeDM_T ::
  "sample_T \<Rightarrow> real list \<Rightarrow> int \<Rightarrow> real list \<Rightarrow> int \<Rightarrow> int \<Rightarrow> int \<Rightarrow> int \<Rightarrow> int \<Rightarrow> real
     \<Rightarrow> real list option" where
  "discretizeDM_T T dbuf direction obuf dstp width height stride bins offset =
     plane_pass
       (\<lambda>direction q x. do {
          dir \<leftarrow> rd dbuf (direction + x);
          Some (store_T T (getBin_T dir bins)) })
       obuf dstp direction 0 width height stride stride 0"

definition discretizeDM_float ::
  "real list \<Rightarrow> int \<Rightarrow> real list \<Rightarrow> int \<Rightarrow> int \<Rightarrow> int \<Rightarrow> int \<Rightarrow> int \<Rightarrow> real
     \<Rightarrow> real list option" where
  "discretizeDM_float dbuf direction obuf dstp width height stride bins offset =
     plane_pass
       (\<lambda>direction q x. do {
          dir \<leftarrow> rd dbuf (direction + x);
          Some (getBin_float dir bins - offset) })
       obuf dstp direction 0 width height stride stride 0"

section \<open>The filter\<close>

text \<open>
  What the code uses of the VapourSynth interface. A frame is the list of its planes; a
  plane has its width and height in samples, its stride in bytes and its samples. The
  fields of \<open>VSVideoInfo\<close> and \<open>VSFormat\<close> carry the prefixes \<open>vi_\<close> and \<open>f_\<close>, since \<open>width\<close>,
  \<open>height\<close> and the like are names of local variables of the code.
\<close>

datatype VSSampleType = stInteger | stFloat

datatype VSColorFamily = cmGray | cmRGB | cmYUV | cmYCoCg | cmCompat

record VSFormat =
  f_colorFamily :: VSColorFamily
  f_sampleType :: VSSampleType
  f_bitsPerSample :: int
  f_bytesPerSample :: int
  f_numPlanes :: int

record VSVideoInfo =
  vi_format :: "VSFormat option"
  vi_width :: int
  vi_height :: int

record VSPlane =
  p_width :: int
  p_height :: int
  p_stride :: int
  p_data :: "real list"

type_synonym VSFrame = "VSPlane list"

text \<open>
  \<open>newVideoFrame2\<close> of the VapourSynth interface, as its documentation describes it: plane
  \<open>i\<close> of the new frame is a copy of plane \<open>planes[i]\<close> of the frame \<open>planeSrc[i]\<close>, and is
  not initialised when \<open>planeSrc[i]\<close> is null; \<open>fresh\<close> is the frame as the allocator hands it
  out.
\<close>

definition newVideoFrame2 :: "VSFrame \<Rightarrow> VSFrame option list \<Rightarrow> int list \<Rightarrow> int \<Rightarrow> VSFrame" where
  "newVideoFrame2 fresh planeSrc planes n =
     map (\<lambda>i. case planeSrc ! i of None \<Rightarrow> fresh ! i | Some f \<Rightarrow> f ! nat (planes ! i))
         [0..<nat n]"

text \<open>
  \<open>TCannyData\<close> (lines 36 to 53), without the node and, as this is the portable path, the
  four function pointers.
\<close>

record TCannyData =
  vi :: VSVideoInfo
  sigma :: real
  t_h :: real
  t_l :: real
  gmmax :: real
  mode :: int
  op :: int
  process :: "bool list"
  radius :: int
  radiusAlign :: int
  bins :: int
  weights :: "real list"
  magnitude :: real
  peak :: int
  offset :: "real list"
  lower :: "real list"
  upper :: "real list"

definition scale :: "real \<Rightarrow> int \<Rightarrow> real" where
  "scale val bits = val * real_of_int (push_bit (nat bits) 1 - 1) / 255"

text \<open>
  The body of the loop of \<open>process\<close> (lines 824 to 865) for one plane that is processed.
  The scratch buffers keep what the plane before left in them, so they are part of the
  state.
\<close>

definition process_plane ::
  "sample_T \<Rightarrow> TCannyData \<Rightarrow> VSFrame \<Rightarrow> int \<Rightarrow> int \<Rightarrow> int \<Rightarrow> int \<Rightarrow> int
     \<Rightarrow> VSFrame \<times> real list \<times> real list \<times> real list \<times> real list \<times> Stack
     \<Rightarrow> (VSFrame \<times> real list \<times> real list \<times> real list \<times> real list \<times> Stack) option" where
  "process_plane T d src buffer blur gradient direction plane =
     (\<lambda>(dst, rbuf, bbuf, gbuf, dbuf, stack). do {
        sp \<leftarrow> rd src plane;
        dp \<leftarrow> rd dst plane;
        let width = p_width sp;
        let height = p_height sp;
        let stride = p_stride sp div sizeof_T T;
        let blurStride = stride + 16;
        off \<leftarrow> rd (offset d) plane;
        (rbuf, bbuf) \<leftarrow>
          (if T = T_float
           then gaussianBlurVertical_float (p_data sp) 0 rbuf buffer bbuf blur (weights d) 0
                  width height stride blurStride (radius d) off
           else gaussianBlurVertical_T (p_data sp) 0 rbuf buffer bbuf blur (weights d) 0
                  width height stride blurStride (radius d) off);
        (bbuf, gbuf, dbuf) \<leftarrow>
          (if mode d \<noteq> - 1
           then detectEdge bbuf blur gbuf gradient dbuf direction width height stride blurStride
                  (mode d) (op d)
           else Some (bbuf, gbuf, dbuf));
        (bbuf, stack) \<leftarrow>
          (if \<not> (mode d AND 1 \<noteq> 0) then do {
             bbuf \<leftarrow> nonMaximumSuppression gbuf gradient dbuf direction bbuf blur width height
                       stride blurStride;
             hysteresis bbuf blur stack width height blurStride (t_h d) (t_l d) }
           else Some (bbuf, stack));
        obuf \<leftarrow>
          (if mode d = - 1 then do {
             up \<leftarrow> rd (upper d) plane;
             if T = T_float
             then outputGB_float bbuf blur (p_data dp) 0 width height stride blurStride (peak d) off up
             else outputGB_T T bbuf blur (p_data dp) 0 width height stride blurStride (peak d) off up }
           else if mode d = 0 then do {
             lw \<leftarrow> rd (lower d) plane;
             up \<leftarrow> rd (upper d) plane;
             if T = T_float
             then binarizeCE_float bbuf blur (p_data dp) 0 width height stride blurStride
                    (real_of_int (peak d)) lw up
             else binarizeCE_T T bbuf blur (p_data dp) 0 width height stride blurStride (peak d) lw up }
           else if mode d = 1 then do {
             up \<leftarrow> rd (upper d) plane;
             if T = T_float
             then discretizeGM_float gbuf gradient (p_data dp) 0 width height stride (magnitude d)
                    (peak d) off up
             else discretizeGM_T T gbuf gradient (p_data dp) 0 width height stride (magnitude d)
                    (peak d) off up }
           else if mode d = 2 then do {
             lw \<leftarrow> rd (lower d) plane;
             if T = T_float
             then discretizeDM_T_float bbuf blur dbuf direction (p_data dp) 0 width height stride
                    blurStride (bins d) off lw
             else discretizeDM_T_T T bbuf blur dbuf direction (p_data dp) 0 width height stride
                    blurStride (bins d) off lw }
           else
             if T = T_float
             then discretizeDM_float dbuf direction (p_data dp) 0 width height stride (bins d) off
             else discretizeDM_T T dbuf direction (p_data dp) 0 width height stride (bins d) off);
        Some (dst[nat plane := dp\<lparr>p_data := obuf\<rparr>], rbuf, bbuf, gbuf, dbuf, stack) })"

text \<open>
  \<open>process<T>\<close> (lines 820 to 867): the planes in order, those with \<open>d->process[plane]\<close>
  only. The result is the destination frame; the scratch buffers are dropped.
\<close>

definition process_T ::
  "sample_T \<Rightarrow> VSFrame \<Rightarrow> VSFrame \<Rightarrow> real list \<Rightarrow> int \<Rightarrow> real list \<Rightarrow> int \<Rightarrow> real list \<Rightarrow> int
     \<Rightarrow> real list \<Rightarrow> int \<Rightarrow> Stack \<Rightarrow> TCannyData \<Rightarrow> VSFrame option" where
  "process_T T src dst rbuf buffer bbuf blur gbuf gradient dbuf direction stack d = do {
     fmt \<leftarrow> vi_format (vi d);
     st \<leftarrow> for_loop [0..f_numPlanes fmt - 1]
       (\<lambda>plane st. do {
          pr \<leftarrow> rd (process d) plane;
          if pr then process_plane T d src buffer blur gradient direction plane st
          else Some st })
       (dst, rbuf, bbuf, gbuf, dbuf, stack);
     Some (fst st) }"

text \<open>
  \<open>vs_aligned_malloc\<close>: \<open>None\<close> when the allocation fails, and else an array of \<open>n\<close> cells
  whose contents \<open>g\<close> the program has no say in. The record \<open>heap\<close> says, for each of the
  six allocations of \<open>tcannyGetFrame\<close>, which of the two happens.
\<close>

definition vs_aligned_malloc :: "(nat \<Rightarrow> 'a) option \<Rightarrow> int \<Rightarrow> 'a list option" where
  "vs_aligned_malloc g n = map_option (\<lambda>f. map f [0..<nat n]) g"

record heap =
  h_buffer :: "(nat \<Rightarrow> real) option"
  h_blur :: "(nat \<Rightarrow> real) option"
  h_gradient :: "(nat \<Rightarrow> real) option"
  h_direction :: "(nat \<Rightarrow> real) option"
  h_map :: "(nat \<Rightarrow> 8 word) option"
  h_pos :: "(nat \<Rightarrow> int \<times> int) option"

datatype VSActivationReason = arInitial | arFrameReady | arAllFramesReady | arError

text \<open>
  \<open>tcannyGetFrame\<close> (lines 874 to 959). \<open>src\<close> is the frame that \<open>getFrameFilter\<close> returns.
  The result is \<open>None\<close> when the code reads or writes outside a buffer, \<open>Inl\<close> with the
  message when it calls \<open>setFilterError\<close>, \<open>Inr None\<close> when it returns a null pointer without
  an error, and \<open>Inr (Some dst)\<close> when it returns the frame \<open>dst\<close>.
\<close>

definition tcannyGetFrame ::
  "heap \<Rightarrow> VSFrame \<Rightarrow> VSActivationReason \<Rightarrow> TCannyData \<Rightarrow> VSFrame \<Rightarrow> (string + VSFrame option) option" where
  "tcannyGetFrame hp fresh activationReason d src =
     (if activationReason = arInitial then Some (Inr None)
      else if activationReason = arAllFramesReady then do {
        fmt \<leftarrow> vi_format (vi d);
        p0 \<leftarrow> rd (process d) 0;
        p1 \<leftarrow> rd (process d) 1;
        p2 \<leftarrow> rd (process d) 2;
        let fr = [if p0 then None else Some src, if p1 then None else Some src,
                  if p2 then None else Some src];
        let pl = [0, 1, 2];
        let dst = newVideoFrame2 fresh fr pl (f_numPlanes fmt);
        case vs_aligned_malloc (h_buffer hp) (vi_width (vi d) + radiusAlign d * 2) of
          None \<Rightarrow> Some (Inl ''TCanny: malloc failure (buffer)'')
        | Some buffer \<Rightarrow> do {
        s0 \<leftarrow> rd src 0;
        case vs_aligned_malloc (h_blur hp)
               ((p_stride s0 div f_bytesPerSample fmt + 16) * vi_height (vi d)) of
          None \<Rightarrow> Some (Inl ''TCanny: malloc failure (blur)'')
        | Some blur \<Rightarrow>
        case (if mode d \<noteq> - 1
              then vs_aligned_malloc (h_gradient hp)
                     (p_stride s0 div f_bytesPerSample fmt * (vi_height (vi d) + 1))
              else Some []) of
          None \<Rightarrow> Some (Inl ''TCanny: malloc failure (gradient)'')
        | Some gradient \<Rightarrow>
        case (if mode d \<noteq> - 1 \<and> mode d \<noteq> 1
              then vs_aligned_malloc (h_direction hp)
                     (p_stride s0 div f_bytesPerSample fmt * (vi_height (vi d) + 1))
              else Some []) of
          None \<Rightarrow> Some (Inl ''TCanny: malloc failure (direction)'')
        | Some direction \<Rightarrow>
        case (if \<not> (mode d AND 1 \<noteq> 0)
              then (case (vs_aligned_malloc (h_map hp) (vi_width (vi d) * vi_height (vi d)),
                          vs_aligned_malloc (h_pos hp) (vi_width (vi d) * vi_height (vi d))) of
                      (Some m, Some ps) \<Rightarrow> Some \<lparr>map_s = m, pos = ps, index = 0\<rparr>
                    | _ \<Rightarrow> None)
              else Some \<lparr>map_s = [], pos = [], index = 0\<rparr>) of
          None \<Rightarrow> Some (Inl ''TCanny: malloc failure (stack)'')
        | Some stack \<Rightarrow> do {
        dst \<leftarrow>
          (if f_sampleType fmt = stInteger then
             if f_bitsPerSample fmt = 8
             then process_T T_uint8 src dst buffer (radiusAlign d) blur 8 gradient 0 direction 0 stack d
             else process_T T_uint16 src dst buffer (radiusAlign d) blur 8 gradient 0 direction 0 stack d
           else process_T T_float src dst buffer (radiusAlign d) blur 8 gradient 0 direction 0 stack d);
        Some (Inr (Some dst)) } } }
      else Some (Inr None))"

text \<open>
  The properties of the input map that \<open>tcannyCreate\<close> reads: a property that is not set
  is \<open>None\<close> (the \<open>err\<close> of \<open>propGetFloat\<close> and \<open>propGetInt\<close>), \<open>in_planes\<close> is the array
  \<open>planes\<close>, and \<open>in_clip\<close> the video information of the clip.
\<close>

record VSMap_in =
  in_sigma :: "real option"
  in_t_h :: "real option"
  in_t_l :: "real option"
  in_mode :: "int option"
  in_op :: "int option"
  in_gmmax :: "real option"
  in_planes :: "int list option"
  in_clip :: VSVideoInfo

text \<open>\<open>int64ToIntS\<close> and \<open>isConstantFormat\<close> of VSHelper.h.\<close>

definition int64ToIntS :: "int \<Rightarrow> int" where
  "int64ToIntS i = (if i > 2147483647 then 2147483647 else if i < - 2147483648 then - 2147483648 else i)"

definition isConstantFormat :: "VSVideoInfo \<Rightarrow> bool" where
  "isConstantFormat v \<longleftrightarrow> vi_height v > 0 \<and> vi_width v > 0 \<and> vi_format v \<noteq> None"

text \<open>
  The loop over the array \<open>planes\<close> (lines 1036 to 1052): it ends with an error message or
  with the flags; the flags are an array of three, and a write outside it is \<open>None\<close>.
\<close>

fun tcannyCreate_planes :: "int \<Rightarrow> int list \<Rightarrow> bool list \<Rightarrow> (string + bool list) option" where
  "tcannyCreate_planes numPlanes [] flags = Some (Inr flags)"
| "tcannyCreate_planes numPlanes (i # planes) flags =
     (let n = int64ToIntS i in
      if n < 0 \<or> n \<ge> numPlanes then Some (Inl ''TCanny: plane index out of range'')
      else do {
        p \<leftarrow> rd flags n;
        if p then Some (Inl ''TCanny: plane specified twice'')
        else do {
          flags \<leftarrow> wr flags n True;
          tcannyCreate_planes numPlanes planes flags } })"

text \<open>
  \<open>tcannyCreate\<close> (lines 970 to 1113). \<open>d0\<close> is the local variable \<open>d\<close> as it is before the
  first assignment: the function leaves some fields as they are. The result is \<open>Inl\<close> with
  the message when the function calls \<open>setError\<close> and returns, \<open>Inr\<close> with the data it
  hands to \<open>createFilter\<close>, and \<open>None\<close> when it reads or writes outside an array or
  \<open>gaussianWeights\<close> has no result.
\<close>

definition tcannyCreate ::
  "(int \<Rightarrow> bool) \<Rightarrow> TCannyData \<Rightarrow> VSMap_in \<Rightarrow> (string + TCannyData) option" where
  "tcannyCreate nothrow_new d0 inp =
     (let d = d0\<lparr>sigma := (case in_sigma inp of None \<Rightarrow> 1.5 | Some v \<Rightarrow> v)\<rparr>;
          d = d\<lparr>t_h := (case in_t_h inp of None \<Rightarrow> 8 | Some v \<Rightarrow> v)\<rparr>;
          d = d\<lparr>t_l := (case in_t_l inp of None \<Rightarrow> 1 | Some v \<Rightarrow> v)\<rparr>;
          d = d\<lparr>mode := int64ToIntS (case in_mode inp of None \<Rightarrow> 0 | Some v \<Rightarrow> v)\<rparr>;
          d = d\<lparr>op := (case in_op inp of None \<Rightarrow> 1 | Some v \<Rightarrow> int64ToIntS v)\<rparr>;
          d = d\<lparr>gmmax := (case in_gmmax inp of None \<Rightarrow> 50 | Some v \<Rightarrow> v)\<rparr>
      in if sigma d \<le> 0 then Some (Inl ''TCanny: sigma must be greater than 0.0'')
         else if t_l d \<ge> t_h d then Some (Inl ''TCanny: t_h must be greater than t_l'')
         else if mode d < - 1 \<or> mode d > 3 then Some (Inl ''TCanny: mode must be -1, 0, 1, 2 or 3'')
         else if op d < 0 \<or> op d > 3 then Some (Inl ''TCanny: op must be 0, 1, 2 or 3'')
         else if gmmax d < 1 then Some (Inl ''TCanny: gmmax must be greater than or equal to 1.0'')
         else
           let d = d\<lparr>vi := in_clip inp\<rparr> in
           case (if isConstantFormat (vi d) then vi_format (vi d) else None) of
             None \<Rightarrow>
               Some (Inl ''TCanny: only constant format 8-16 bits integer and 32 bits float input supported'')
           | Some fmt \<Rightarrow>
           if (f_sampleType fmt = stInteger \<and> f_bitsPerSample fmt > 16) \<or>
              (f_sampleType fmt = stFloat \<and> f_bitsPerSample fmt \<noteq> 32)
           then Some (Inl ''TCanny: only constant format 8-16 bits integer and 32 bits float input supported'')
           else
             let m = (case in_planes inp of None \<Rightarrow> - 1 | Some ps \<Rightarrow> int (length ps));
                 d = d\<lparr>process := replicate 3 (m \<le> 0)\<rparr>
             in do {
               r \<leftarrow> tcannyCreate_planes (f_numPlanes fmt)
                      (case in_planes inp of None \<Rightarrow> [] | Some ps \<Rightarrow> ps) (process d);
               case r of
                 Inl e \<Rightarrow> Some (Inl e)
               | Inr pr \<Rightarrow> do {
                   let d = d\<lparr>process := pr\<rparr>;
                   d \<leftarrow>
                     (if f_sampleType fmt = stInteger then
                        let d = d\<lparr>t_h := scale (t_h d) (f_bitsPerSample fmt)\<rparr>;
                            d = d\<lparr>t_l := scale (t_l d) (f_bitsPerSample fmt)\<rparr>;
                            d = d\<lparr>bins := push_bit (nat (f_bitsPerSample fmt)) 1\<rparr>
                        in Some (d\<lparr>peak := bins d - 1\<rparr>)
                      else
                        let d = d\<lparr>t_h := t_h d / 255\<rparr>;
                            d = d\<lparr>t_l := t_l d / 255\<rparr>;
                            d = d\<lparr>bins := 1\<rparr>
                        in for_loop [0..f_numPlanes fmt - 1]
                             (\<lambda>plane d. do {
                                pr \<leftarrow> rd (process d) plane;
                                if pr then
                                  if plane = 0 \<or> f_colorFamily fmt = cmRGB then do {
                                    ofs \<leftarrow> wr (offset d) plane 0;
                                    l \<leftarrow> wr (lower d) plane 0;
                                    u \<leftarrow> wr (upper d) plane 1;
                                    Some (d\<lparr>offset := ofs, lower := l, upper := u\<rparr>) }
                                  else do {
                                    ofs \<leftarrow> wr (offset d) plane 0.5;
                                    l \<leftarrow> wr (lower d) plane (- 0.5);
                                    u \<leftarrow> wr (upper d) plane 0.5;
                                    Some (d\<lparr>offset := ofs, lower := l, upper := u\<rparr>) }
                                else Some d })
                             d);
                   g \<leftarrow> gaussianWeights nothrow_new (sigma d);
                   case g of
                     (None, r) \<Rightarrow> Some (Inl ''TCanny: malloc failure (weights)'')
                   | (Some ws, r) \<Rightarrow>
                       let d = d\<lparr>weights := ws, radius := r\<rparr>;
                           d = d\<lparr>radiusAlign := (radius d + 7) AND (- 8)\<rparr>;
                           d = d\<lparr>magnitude := 255 / gmmax d\<rparr>
                       in Some (Inr d) } })"

section \<open>A small clip\<close>

text \<open>
  A clip of three planes of two by two samples of eight bits, of which only the first is
  processed, in mode -1 (the blurred plane is the output), with the kernel
  \<open>1/4, 1/2, 1/4\<close> of radius 1. It is the concrete input of the statements about the
  whole filter. \<open>ex_map\<close> is an input map for that clip in which the low threshold is above
  the high one.
\<close>

definition ex_format :: VSFormat where
  "ex_format = \<lparr>f_colorFamily = cmYUV, f_sampleType = stInteger, f_bitsPerSample = 8,
                 f_bytesPerSample = 1, f_numPlanes = 3\<rparr>"

definition ex_data :: TCannyData where
  "ex_data = \<lparr>vi = \<lparr>vi_format = Some ex_format, vi_width = 2, vi_height = 2\<rparr>,
               sigma = 1 / 2, t_h = 8, t_l = 1, gmmax = 50, mode = - 1, op = 1,
               process = [True, False, False], radius = 1, radiusAlign = 8, bins = 256,
               weights = [1 / 4, 1 / 2, 1 / 4], magnitude = 255 / 50, peak = 255,
               offset = [0, 0, 0], lower = [0, 0, 0], upper = [0, 0, 0]\<rparr>"

definition ex_src :: VSFrame where
  "ex_src = [\<lparr>p_width = 2, p_height = 2, p_stride = 2, p_data = [8, 16, 24, 32]\<rparr>,
             \<lparr>p_width = 2, p_height = 2, p_stride = 2, p_data = [1, 2, 3, 4]\<rparr>,
             \<lparr>p_width = 2, p_height = 2, p_stride = 2, p_data = [5, 6, 7, 8]\<rparr>]"

definition ex_fresh :: VSFrame where
  "ex_fresh = replicate 3 \<lparr>p_width = 2, p_height = 2, p_stride = 2, p_data = [0, 0, 0, 0]\<rparr>"

definition ex_heap :: heap where
  "ex_heap = \<lparr>h_buffer = Some (\<lambda>i. 0), h_blur = Some (\<lambda>i. 0), h_gradient = Some (\<lambda>i. 0),
               h_direction = Some (\<lambda>i. 0), h_map = Some (\<lambda>i. 0), h_pos = Some (\<lambda>i. (0, 0))\<rparr>"

definition ex_map :: VSMap_in where
  "ex_map = \<lparr>in_sigma = Some (1 / 2), in_t_h = Some 1, in_t_l = Some 2, in_mode = None,
              in_op = None, in_gmmax = None, in_planes = None,
              in_clip = \<lparr>vi_format = Some ex_format, vi_width = 2, vi_height = 2\<rparr>\<rparr>"

section \<open>Loops\<close>

lemma for_loop_append:
  "for_loop (ks @ ls) body s =
     (case for_loop ks body s of None \<Rightarrow> None | Some s' \<Rightarrow> for_loop ls body s')"
  by (induction ks arbitrary: s) (auto split: option.splits)

lemma for_loop_total_aux:
  assumes "P pre s"
    and "\<And>pre' k post s. pre @ ks = pre' @ k # post \<Longrightarrow> P pre' s
           \<Longrightarrow> \<exists>s'. body k s = Some s' \<and> P (pre' @ [k]) s'"
  shows "\<exists>s'. for_loop ks body s = Some s' \<and> P (pre @ ks) s'"
  using assms
proof (induction ks arbitrary: pre s)
  case Nil
  then show ?case by simp
next
  case (Cons k ks)
  from Cons.prems(2)[of pre k ks s] Cons.prems(1)
  obtain s1 where 1: "body k s = Some s1" and 2: "P (pre @ [k]) s1" by auto
  have "\<exists>s'. for_loop ks body s1 = Some s' \<and> P ((pre @ [k]) @ ks) s'"
  proof (rule Cons.IH[OF 2])
    fix pre' k' post s
    assume "(pre @ [k]) @ ks = pre' @ k' # post" "P pre' s"
    then show "\<exists>s'. body k' s = Some s' \<and> P (pre' @ [k']) s'"
      using Cons.prems(2)[of pre' k' post s] by simp
  qed
  with 1 show ?case by simp
qed

lemma for_loop_total:
  assumes "P [] s"
    and "\<And>pre k post s. ks = pre @ k # post \<Longrightarrow> P pre s
           \<Longrightarrow> \<exists>s'. body k s = Some s' \<and> P (pre @ [k]) s'"
  shows "\<exists>s'. for_loop ks body s = Some s' \<and> P ks s'"
  using for_loop_total_aux[of P "[]" s ks body] assms by simp

lemma for_loop_partial_aux:
  assumes "for_loop ks body s = Some s'" and "P pre s"
    and "\<And>pre' k post s s'. pre @ ks = pre' @ k # post \<Longrightarrow> P pre' s \<Longrightarrow> body k s = Some s'
           \<Longrightarrow> P (pre' @ [k]) s'"
  shows "P (pre @ ks) s'"
  using assms
proof (induction ks arbitrary: pre s)
  case Nil
  then show ?case by simp
next
  case (Cons k ks)
  from Cons.prems(1) obtain s1 where 1: "body k s = Some s1"
    and 2: "for_loop ks body s1 = Some s'"
    by (auto split: option.splits)
  have 3: "P (pre @ [k]) s1"
    using Cons.prems(3)[of pre k ks s s1] Cons.prems(2) 1 by simp
  have "P ((pre @ [k]) @ ks) s'"
  proof (rule Cons.IH[OF 2 3])
    fix pre' k' post s s'
    assume "(pre @ [k]) @ ks = pre' @ k' # post" "P pre' s" "body k' s = Some s'"
    then show "P (pre' @ [k']) s'"
      using Cons.prems(3)[of pre' k' post s s'] by simp
  qed
  then show ?case by simp
qed

lemma for_loop_partial:
  assumes "for_loop ks body s = Some s'" and "P [] s"
    and "\<And>pre k post s s'. ks = pre @ k # post \<Longrightarrow> P pre s \<Longrightarrow> body k s = Some s'
           \<Longrightarrow> P (pre @ [k]) s'"
  shows "P ks s'"
  using for_loop_partial_aux[of ks body s s' P "[]"] assms by simp

lemma upto_decomp:
  assumes "[a..b] = pre @ k # post"
  shows "k = a + int (length pre)" and "a \<le> k" and "k \<le> b"
proof -
  have len: "length pre < length [a..b]" using assms by simp
  then have le: "a + int (length pre) \<le> b" by simp
  have "[a..b] ! length pre = k" using assms by simp
  then show k: "k = a + int (length pre)" using nth_upto[OF le] by simp
  show "a \<le> k" using k by simp
  show "k \<le> b" using k le by simp
qed


lemma wr_Some: "0 \<le> i \<Longrightarrow> i < int (length b) \<Longrightarrow> wr b i v = Some (b[nat i := v])"
  by (simp add: wr_def)

lemma rd_Some: "0 \<le> i \<Longrightarrow> i < int (length b) \<Longrightarrow> rd b i = Some (b ! nat i)"
  by (simp add: rd_def)

lemma for_loop_write_row:
  assumes body: "\<And>x b. lo \<le> x \<Longrightarrow> x \<le> hi \<Longrightarrow> length b = n \<Longrightarrow> body x b = wr b (base + x) (f x)"
    and lo: "0 \<le> base + lo" and hi: "base + hi < int n" and len: "length b0 = n"
  shows "\<exists>b'. for_loop [lo..hi] body b0 = Some b' \<and> length b' = n \<and>
           (\<forall>i. 0 \<le> i \<longrightarrow> b' ! nat i = (if base + lo \<le> i \<and> i \<le> base + hi then f (i - base) else b0 ! nat i))"
proof -
  let ?P = "\<lambda>pre b. length b = n \<and>
     (\<forall>i. 0 \<le> i \<longrightarrow> b ! nat i = (if base + lo \<le> i \<and> i < base + lo + int (length pre) then f (i - base) else b0 ! nat i))"
  have "\<exists>b'. for_loop [lo..hi] body b0 = Some b' \<and> ?P [lo..hi] b'"
  proof (rule for_loop_total[where P = ?P])
    show "?P [] b0" using len by auto
  next
    fix pre k post b
    assume dec: "[lo..hi] = pre @ k # post" and P: "?P pre b"
    note k = upto_decomp[OF dec]
    have w: "body k b = Some (b[nat (base + k) := f k])"
      using body[of k b] k P lo hi by (simp add: wr_Some)
    have "?P (pre @ [k]) (b[nat (base + k) := f k])"
    proof (intro conjI allI impI)
      show "length (b[nat (base + k) := f k]) = n" using P by simp
    next
      fix i :: int assume i: "0 \<le> i"
      show "b[nat (base + k) := f k] ! nat i =
         (if base + lo \<le> i \<and> i < base + lo + int (length (pre @ [k])) then f (i - base) else b0 ! nat i)"
      proof (cases "i = base + k")
        case True
        then show ?thesis using k P lo hi by simp
      next
        case False
        then have "nat (base + k) \<noteq> nat i" using i k lo by simp
        then show ?thesis using P i k False by auto
      qed
    qed
    with w show "\<exists>s'. body k b = Some s' \<and> ?P (pre @ [k]) s'" by simp
  qed
  then obtain b' where r: "for_loop [lo..hi] body b0 = Some b'" and P: "?P [lo..hi] b'" by blast
  have "(base + lo \<le> i \<and> i < base + lo + int (length [lo..hi])) = (base + lo \<le> i \<and> i \<le> base + hi)" for i
    by auto
  with r P show ?thesis by auto
qed

section \<open>The weights of the kernel\<close>

lemma update_at_length: "n = length xs \<Longrightarrow> ys \<noteq> [] \<Longrightarrow> (xs @ ys)[n := v] = xs @ v # tl ys"
  by (cases ys) (simp_all add: list_update_append)

lemma gaussian_fill:
  assumes "- r - 1 \<le> b" and "b \<le> r" and "length ws0 = nat (2 * r + 1)"
  shows "fold (\<lambda>k (weights, sum). (weights[nat (k + r) := f k], sum + f k))
           [- r..b] (ws0, 0 :: real)
         = (map f [- r..b] @ drop (nat (b + r + 1)) ws0, sum_list (map f [- r..b]))"
  using assms(1,2)
proof (induction b rule: int_ge_induct)
  case base
  then show ?case by simp
next
  case (step b)
  have up: "[- r..b + 1] = [- r..b] @ [b + 1]"
    using step.hyps by (simp add: upto_rec2)
  have n: "nat (b + 1 + r) = length (map f [- r..b])" using step.hyps by simp
  have ne: "drop (nat (b + r + 1)) ws0 \<noteq> []"
    using step.prems step.hyps assms(3) by simp
  have "nat (b + 1 + r + 1) = Suc (nat (b + r + 1))" using step.hyps by simp
  then have tl: "tl (drop (nat (b + r + 1)) ws0) = drop (nat (b + 1 + r + 1)) ws0"
    by (simp add: drop_Suc[symmetric] tl_drop del: drop_Suc)
  from step.IH step.prems have IH:
    "fold (\<lambda>k (weights, sum). (weights[nat (k + r) := f k], sum + f k))
           [- r..b] (ws0, 0)
         = (map f [- r..b] @ drop (nat (b + r + 1)) ws0, sum_list (map f [- r..b]))"
    by simp
  show ?case
    unfolding up fold_append comp_def IH
    using update_at_length[OF n ne, of "f (b + 1)"] tl
    by simp
qed

lemma gaussian_normalise:
  assumes "- 1 \<le> b" and "b < int (length ws)"
  shows "fold (\<lambda>k weights. weights[nat k := weights ! nat k / s]) [0..b] ws
         = map (\<lambda>w. w / (s :: real)) (take (nat (b + 1)) ws) @ drop (nat (b + 1)) ws"
  using assms
proof (induction b rule: int_ge_induct)
  case base
  then show ?case by simp
next
  case (step b)
  have up: "[0..b + 1] = [0..b] @ [b + 1]"
    using step.hyps by (simp add: upto_rec2)
  let ?n = "nat (b + 1)"
  have n: "?n < length ws" using step.prems step.hyps by simp
  have len: "?n = length (map (\<lambda>w. w / s) (take ?n ws))" using n by simp
  have ne: "drop ?n ws \<noteq> []" using n by simp
  from step.IH step.prems have IH:
    "fold (\<lambda>k weights. weights[nat k := weights ! nat k / s]) [0..b] ws
       = map (\<lambda>w. w / s) (take ?n ws) @ drop ?n ws"
    by simp
  have nth: "(map (\<lambda>w. w / s) (take ?n ws) @ drop ?n ws) ! ?n = ws ! ?n"
    using n by (simp add: nth_append)
  have Suc: "nat (b + 1 + 1) = Suc ?n" using step.hyps by simp
  have "(map (\<lambda>w. w / s) (take ?n ws) @ drop ?n ws)[?n := ws ! ?n / s]
        = map (\<lambda>w. w / s) (take ?n ws) @ (ws ! ?n / s) # tl (drop ?n ws)"
    by (rule update_at_length[OF len ne])
  also have "\<dots> = map (\<lambda>w. w / s) (take (Suc ?n) ws) @ drop (Suc ?n) ws"
    using n by (simp add: take_Suc_conv_app_nth tl_drop drop_Suc[symmetric] del: drop_Suc)
  finally show ?case
    unfolding up fold_append comp_def IH using nth Suc by simp
qed


lemma int32_id: "- 2147483648 \<le> i \<Longrightarrow> i \<le> 2147483647 \<Longrightarrow> int32 i = i"
  by (simp add: int32_def)

lemma square_bound:
  fixes k :: int
  assumes "- r \<le> k" and "k \<le> r"
  shows "0 \<le> k * k \<and> k * k \<le> r * r"
proof -
  have "\<bar>k\<bar> \<le> r" using assms by simp
  then have "\<bar>k\<bar> * \<bar>k\<bar> \<le> r * r" by (intro mult_mono) simp_all
  then show ?thesis by (simp add: abs_mult_self_eq)
qed

lemma int32_square:
  assumes "- r \<le> k" and "k \<le> r" and "r \<le> 46340"
  shows "int32 (- int32 (k * k)) = - (k * k)"
proof -
  have "0 \<le> r" using assms(1,2) by simp
  then have "r * r \<le> 46340 * 46340" using assms(3) by (intro mult_mono) simp_all
  with square_bound[OF assms(1,2)] have b: "0 \<le> k * k" "k * k \<le> 2147395600" by simp_all
  then have "int32 (k * k) = k * k" by (intro int32_id) linarith+
  moreover have "int32 (- (k * k)) = - (k * k)" using b by (intro int32_id) linarith+
  ultimately show ?thesis by simp
qed

lemma gaussianWeights_wrapped:
  fixes sg :: real
  assumes "0 < sg" and "sg * 3 + 1 / 2 < 1073741824"
    and "nothrow_new (max \<lfloor>sg * 3 + 1 / 2\<rfloor> 1 * 2 + 1)"
  defines "r \<equiv> max \<lfloor>sg * 3 + 1 / 2\<rfloor> 1"
    and "g \<equiv> \<lambda>k::int. exp (real_of_int (int32 (- int32 (k * k))) / (2 * sg * sg))"
  shows "gaussianWeights nothrow_new sg =
           Some (Some (map (\<lambda>k. g k / sum_list (map g [- r..r])) [- r..r]), r)"
proof -
  have fl: "0 \<le> \<lfloor>sg * 3 + 1 / 2\<rfloor>" "\<lfloor>sg * 3 + 1 / 2\<rfloor> < 1073741824"
    using assms(1,2) by (simp_all add: floor_less_iff)
  have c: "static_cast_int32 (sg * 3 + 0.5) = Some \<lfloor>sg * 3 + 1 / 2\<rfloor>"
    using assms(1) fl by (simp add: static_cast_int32_def static_cast_int_def)
  have r1: "1 \<le> r" and r2: "r < 1073741824" using fl by (simp_all add: r_def)
  have dm: "int32 (int32 (r * 2) + 1) = r * 2 + 1"
    using r1 r2 by (simp add: int32_id)
  have d: "div_int (r * 2 + 1) 2 = r" using r1 by (simp add: div_int_def)
  have len: "length (replicate (nat (r * 2 + 1)) (0::real)) = nat (2 * r + 1)"
    by (simp add: mult.commute)
  have fill: "fold (\<lambda>k (weights, sum). (weights[nat (k + r) := g k], sum + g k))
           [- r..r] (replicate (nat (r * 2 + 1)) 0, 0)
         = (map g [- r..r], sum_list (map g [- r..r]))"
    using gaussian_fill[of r r "replicate (nat (r * 2 + 1)) 0" g, OF _ _ len] r1
    by (simp add: mult.commute)
  have l2: "int (length (map g [- r..r])) = r * 2 + 1" using r1 by simp
  have norm: "fold (\<lambda>k weights. weights[nat k := weights ! nat k / s]) [0..r * 2 + 1 - 1] (map g [- r..r])
         = map (\<lambda>w. w / s) (map g [- r..r])" for s
    using gaussian_normalise[of "r * 2" "map g [- r..r]" s] r1 by simp
  have gk: "exp (real_of_int (int32 (- int32 (k * k))) / (2 * sg * sg)) = g k" for k
    by (simp add: g_def)
  have a: "nothrow_new (r * 2 + 1)" using assms(3) by (simp add: r_def)
  have nn: "\<not> r * 2 + 1 < 0" using r1 by simp
  show ?thesis
    unfolding gaussianWeights_def c gk Let_def bind.bind_lunit r_def[symmetric] dm d
    by (simp only: a nn fill norm if_False not_True_eq_False simp_thms case_prod_conv map_map comp_def)
qed

lemma gaussianWeights_eq:
  fixes sg :: real
  assumes "0 < sg" and "sg * 3 + 1 / 2 < 46341"
    and "nothrow_new (max \<lfloor>sg * 3 + 1 / 2\<rfloor> 1 * 2 + 1)"
  defines "r \<equiv> max \<lfloor>sg * 3 + 1 / 2\<rfloor> 1"
    and "f \<equiv> \<lambda>k::int. exp (- real_of_int (k * k) / (2 * sg * sg))"
  shows "gaussianWeights nothrow_new sg =
           Some (Some (map (\<lambda>k. f k / sum_list (map f [- r..r])) [- r..r]), r)"
proof -
  define g where "g = (\<lambda>k::int. exp (real_of_int (int32 (- int32 (k * k))) / (2 * sg * sg)))"
  have "\<lfloor>sg * 3 + 1 / 2\<rfloor> < 46341" using assms(2) by (simp add: floor_less_iff)
  then have r2: "r \<le> 46340" by (simp add: r_def)
  have gf: "g k = f k" if "k \<in> set [- r..r]" for k
    using that int32_square[of r k, OF _ _ r2] by (simp add: g_def f_def)
  have m: "map g [- r..r] = map f [- r..r]" using gf by (intro map_cong) simp_all
  have m2: "map (\<lambda>k. g k / s) [- r..r] = map (\<lambda>k. f k / s) [- r..r]" for s
    using gf by (intro map_cong) simp_all
  from assms(2) have "sg * 3 + 1 / 2 < 1073741824" by simp
  with gaussianWeights_wrapped[of sg nothrow_new] assms(1,3)
  have "gaussianWeights nothrow_new sg =
           Some (Some (map (\<lambda>k. g k / sum_list (map g [- r..r])) [- r..r]), r)"
    unfolding r_def g_def by simp
  then show ?thesis unfolding m m2 .
qed

lemma end_weight_differs:
  fixes f g :: "int \<Rightarrow> real"
  assumes r: "1 \<le> r"
    and eq: "\<And>k. - r < k \<Longrightarrow> k < r \<Longrightarrow> g k = f k"
    and pos: "\<And>k. 0 < f k"
    and sym: "g r = g (- r)" "f r = f (- r)"
    and less: "f (- r) < g (- r)"
  shows "g (- r) / (\<Sum>j = - r..r. g j) \<noteq> f (- r) / (\<Sum>j = - r..r. f j)"
proof -
  define T where "T = (\<Sum>j = 1 - r..r - 1. f j)"
  have set: "{- r..r} = insert (- r) (insert r {1 - r..r - 1})" using r by auto
  have Tg: "(\<Sum>j = 1 - r..r - 1. g j) = T"
    unfolding T_def by (rule sum.cong) (auto intro: eq)
  have "(0::int) \<in> {1 - r..r - 1}" using r by simp
  then have Tpos: "0 < T"
    unfolding T_def by (intro sum_pos2[of _ 0]) (auto simp: pos less_imp_le)
  have Sf: "(\<Sum>j = - r..r. f j) = T + 2 * f (- r)"
    unfolding set using r by (simp add: T_def sym)
  have Sg: "(\<Sum>j = - r..r. g j) = T + 2 * g (- r)"
    unfolding set using r by (simp add: Tg sym)
  have fp: "0 < f (- r)" by (rule pos)
  then have gp: "0 < g (- r)" using less by simp
  show ?thesis
  proof
    assume "g (- r) / (\<Sum>j = - r..r. g j) = f (- r) / (\<Sum>j = - r..r. f j)"
    then have "g (- r) * (T + 2 * f (- r)) = f (- r) * (T + 2 * g (- r))"
      unfolding Sf Sg using Tpos fp gp by (simp add: field_simps)
    then have "(g (- r) - f (- r)) * T = 0" by (simp add: algebra_simps)
    then show False using less Tpos by simp
  qed
qed

lemma gaussianWeights_ends:
  fixes sg :: real
  assumes sg: "0 < sg" and fl: "\<lfloor>sg * 3 + 1 / 2\<rfloor> = r" and r: "r = 46341"
  shows "\<exists>ws. gaussianWeights (\<lambda>n. True) sg = Some (Some ws, r) \<and>
           ws ! nat (- r + r) \<noteq>
             exp (- (real_of_int (- r))\<^sup>2 / (2 * sg\<^sup>2)) /
             (\<Sum>j = - r..r. exp (- (real_of_int j)\<^sup>2 / (2 * sg\<^sup>2)))"
proof -
  define g where "g = (\<lambda>k::int. exp (real_of_int (int32 (- int32 (k * k))) / (2 * sg * sg)))"
  define f where "f = (\<lambda>k::int. exp (- (real_of_int k)\<^sup>2 / (2 * sg\<^sup>2)))"
  have m: "max \<lfloor>sg * 3 + 1 / 2\<rfloor> 1 = r" using fl r by simp
  have "sg * 3 + 1 / 2 < real_of_int (r + 1)" using fl by linarith
  then have b: "sg * 3 + 1 / 2 < 1073741824" using r by simp
  from gaussianWeights_wrapped[OF sg b, of "\<lambda>n. True"]
  have run: "gaussianWeights (\<lambda>n. True) sg =
      Some (Some (map (\<lambda>k. g k / sum_list (map g [- r..r])) [- r..r]), r)"
    unfolding m g_def by simp
  have r1: "1 \<le> r" using r by simp
  have S: "sum_list (map g [- r..r]) = (\<Sum>j = - r..r. g j)"
    by (simp add: sum_list_distinct_conv_sum_set)
  have nth: "map (\<lambda>k. g k / sum_list (map g [- r..r])) [- r..r] ! nat (- r + r) =
      g (- r) / (\<Sum>j = - r..r. g j)"
    using r1 by (simp add: S)
  have eq: "g k = f k" if "- r < k" "k < r" for k
  proof -
    have "int32 (- int32 (k * k)) = - (k * k)"
      using that r by (intro int32_square[of "r - 1"]) simp_all
    then show ?thesis by (simp add: g_def f_def power2_eq_square)
  qed
  have w: "int32 (- int32 (r * r)) = 2147479015" unfolding r by (simp add: int32_def)
  have gr: "g (- r) = exp (2147479015 / (2 * sg * sg))" "g r = g (- r)"
    using w by (simp_all add: g_def)
  have "f (- r) < 1" using sg r by (simp add: f_def)
  moreover have "1 < g (- r)" using sg by (simp add: gr)
  ultimately have less: "f (- r) < g (- r)" by simp
  have "g (- r) / (\<Sum>j = - r..r. g j) \<noteq> f (- r) / (\<Sum>j = - r..r. f j)"
    by (rule end_weight_differs[OF r1 eq _ gr(2) _ less]) (simp_all add: f_def)
  then show ?thesis using run nth unfolding f_def by simp
qed

lemma ex_weights: "\<exists>ws. gaussianWeights (\<lambda>n. True) (1 / 2) = Some (Some ws, 2)"
  using gaussianWeights_eq[of "1 / 2" "\<lambda>n. True"] by simp

text \<open>
  C4. For every \<open>sigma > 0\<close> with \<open>sigma * 3 + 0.5 < 46341\<close> (and an allocation that
  succeeds), \<open>gaussianWeights\<close> returns a kernel of diameter
  \<open>max (floor (sigma * 3 + 0.5)) 1 * 2 + 1\<close>, with the radius
  \<open>diameter / 2 = max (round (sigma * 3)) 1\<close>; its weight at the offset \<open>k\<close> between
  \<open>- radius\<close> and \<open>radius\<close> is \<open>exp (- k\<^sup>2 / (2 sigma\<^sup>2))\<close> divided by the sum of these
  values over all offsets, and the weights sum to \<open>1\<close>. The bound keeps the radius at
  \<open>46340\<close> or less, whose square is the largest that a 32-bit \<open>int\<close> holds. From the radius
  \<open>46341\<close> on, which \<open>sigma = 15447\<close> gives, the product \<open>k * k\<close> of line 81 overflows at
  both ends of the kernel, and the weights there are not those of the formula, as the
  example after the theorem shows.
\<close>

theorem gaussianWeights_kernel:
  fixes sg :: real
  assumes "0 < sg" and "sg * 3 + 1 / 2 < 46341"
    and "nothrow_new (max \<lfloor>sg * 3 + 1 / 2\<rfloor> 1 * 2 + 1)"
  shows "\<exists>ws r. gaussianWeights nothrow_new sg = Some (Some ws, r) \<and>
           int (length ws) = max \<lfloor>sg * 3 + 1 / 2\<rfloor> 1 * 2 + 1 \<and>
           r = int (length ws) div 2 \<and>
           r = max (round (sg * 3)) 1 \<and>
           (\<forall>k. - r \<le> k \<and> k \<le> r \<longrightarrow>
              ws ! nat (k + r) =
                exp (- (real_of_int k)\<^sup>2 / (2 * sg\<^sup>2)) /
                (\<Sum>j = - r..r. exp (- (real_of_int j)\<^sup>2 / (2 * sg\<^sup>2)))) \<and>
           sum_list ws = 1"
proof -
  define r where "r = max \<lfloor>sg * 3 + 1 / 2\<rfloor> 1"
  define f where "f = (\<lambda>k::int. exp (- real_of_int (k * k) / (2 * sg * sg)))"
  define S where "S = sum_list (map f [- r..r])"
  have eq: "gaussianWeights nothrow_new sg = Some (Some (map (\<lambda>k. f k / S) [- r..r]), r)"
    unfolding r_def f_def S_def using gaussianWeights_eq[of sg nothrow_new] assms by simp
  have r1: "1 \<le> r" by (simp add: r_def)
  have f: "f k = exp (- (real_of_int k)\<^sup>2 / (2 * sg\<^sup>2))" for k
    by (simp add: f_def power2_eq_square)
  have S: "S = (\<Sum>j = - r..r. f j)"
    unfolding S_def by (simp add: sum_list_distinct_conv_sum_set)
  have "0 < f (0::int)" by (simp add: f_def)
  moreover have "(0::int) \<in> {- r..r}" using r1 by simp
  ultimately have Spos: "0 < S"
    unfolding S by (intro sum_pos2[of _ 0]) (auto simp: f_def)
  have nth: "map (\<lambda>k. f k / S) [- r..r] ! nat (k + r) = f k / S" if "- r \<le> k" "k \<le> r" for k
    using that by simp
  have "sum_list (map (\<lambda>k. f k / S) [- r..r]) = (\<Sum>j = - r..r. f j / S)"
    by (simp add: sum_list_distinct_conv_sum_set)
  also have "\<dots> = (\<Sum>j = - r..r. f j) / S" by (simp only: sum_divide_distrib)
  also have "\<dots> = S / S" by (simp only: S)
  also have "\<dots> = 1" using Spos by simp
  finally have one: "sum_list (map (\<lambda>k. f k / S) [- r..r]) = 1" .
  have len: "int (length (map (\<lambda>k. f k / S) [- r..r])) = r * 2 + 1" using r1 by simp
  show ?thesis
    apply (rule exI[of _ "map (\<lambda>k. f k / S) [- r..r]"], rule exI[of _ r])
    using eq len one nth r1
    apply (simp add: S f)
    apply (simp add: r_def round_def)
    done
qed

theorem gaussianWeights_kernel_witness:
  "\<exists>ws r. (0::real) < 1 / 2 \<and> (1 / 2 :: real) * 3 + 1 / 2 < 46341 \<and>
           gaussianWeights (\<lambda>n. True) (1 / 2) = Some (Some ws, r) \<and>
           int (length ws) = 5 \<and> r = 2 \<and> sum_list ws = 1"
  using gaussianWeights_kernel[of "1 / 2" "\<lambda>n. True"] by auto

text \<open>
  At \<open>sigma = 15447\<close> the radius is \<open>46341\<close>. The product \<open>k * k\<close> at \<open>k = - 46341\<close> is
  \<open>2147488281\<close>, above \<open>2 ^ 31 - 1\<close>; what 32 bits keep of it is \<open>- 2147479015\<close>, so the
  exponent of line 81 is positive, and the first weight of the kernel is not the one of
  the formula.
\<close>

theorem gaussianWeights_overflow:
  "\<exists>ws. (0::real) < 15447 \<and>
     gaussianWeights (\<lambda>n. True) 15447 = Some (Some ws, 46341) \<and>
     int32 (- int32 (46341 * 46341)) = 2147479015 \<and>
     ws ! nat (- 46341 + 46341) \<noteq>
       exp (- (real_of_int (- 46341))\<^sup>2 / (2 * 15447\<^sup>2)) /
       (\<Sum>j = - 46341..46341. exp (- (real_of_int j)\<^sup>2 / (2 * 15447\<^sup>2)))"
proof -
  have fl: "\<lfloor>(15447::real) * 3 + 1 / 2\<rfloor> = 46341" by (simp add: floor_eq_iff)
  from gaussianWeights_ends[OF _ fl refl] obtain ws where
    "gaussianWeights (\<lambda>n. True) 15447 = Some (Some ws, 46341)"
    "ws ! nat (- 46341 + 46341) \<noteq>
       exp (- (real_of_int (- 46341))\<^sup>2 / (2 * 15447\<^sup>2)) /
       (\<Sum>j = - 46341..46341. exp (- (real_of_int j)\<^sup>2 / (2 * 15447\<^sup>2)))"
    by auto
  moreover have "int32 (- int32 (46341 * 46341)) = 2147479015" by (simp add: int32_def)
  ultimately show ?thesis by (intro exI[of _ ws]) simp
qed

section \<open>The stored direction\<close>

lemma atan2_bounds: "- pi < atan2 y x \<and> atan2 y x \<le> pi"
proof -
  have lo: "- (pi / 2) < arctan (y / x)" and hi: "arctan (y / x) < pi / 2"
    by (rule arctan_lbound, rule arctan_ubound)
  have neg: "arctan (y / x) \<le> 0" if "x < 0" "0 \<le> y"
  proof -
    have "y / x \<le> 0" using that by (simp add: divide_nonneg_neg)
    then show ?thesis by simp
  qed
  have pos: "0 < arctan (y / x)" if "x < 0" "y < 0"
  proof -
    have "0 < y / x" using that by (simp add: divide_neg_neg)
    then show ?thesis by simp
  qed
  have pi0: "0 < pi" by (rule pi_gt_zero)
  show ?thesis
    unfolding atan2_def using lo hi neg pos pi0
    by (auto simp: not_less not_le)
qed

lemma detectEdge_direction_range0:
  "0 \<le> detectEdge_direction gx gy \<and> detectEdge_direction gx gy \<le> pi"
  using atan2_bounds[of gy gx] by (auto simp: detectEdge_direction_def M_PIF_def Let_def)

lemma atan2_eq_pi: "atan2 y x = pi \<longleftrightarrow> y = 0 \<and> x < 0"
proof -
  have lo: "- (pi / 2) < arctan (y / x)" and hi: "arctan (y / x) < pi / 2"
    by (rule arctan_lbound, rule arctan_ubound)
  have pi0: "0 < pi" by (rule pi_gt_zero)
  have z: "arctan (y / x) = 0 \<longleftrightarrow> y = 0" if "x \<noteq> 0"
    using that arctan_eq_zero_iff[of "y / x"] by simp
  show ?thesis
    unfolding atan2_def using lo hi pi0 z by (auto split: if_splits)
qed

lemma detectEdge_row_dir:
  assumes run: "for_loop [0..w - 1]
       (\<lambda>x (gbuf, dbuf). do {
           (gx, gy) \<leftarrow> detectEdge_stencil bbuf srcpp srcp srcpn opr x;
           gbuf \<leftarrow> wr gbuf (gp + x) (detectEdge_gradient gx gy);
           dbuf \<leftarrow> (if m \<noteq> 1 then wr dbuf (dp + x) (detectEdge_direction gx gy) else Some dbuf);
           Some (gbuf, dbuf) })
       (g, d) = Some (g', d')"
    and m: "m \<noteq> 1"
    and S: "\<And>c. S c \<Longrightarrow> dir_ok (d ! c)"
  shows "(\<forall>c. S c \<longrightarrow> dir_ok (d' ! c)) \<and> (\<forall>x. 0 \<le> x \<and> x < w \<longrightarrow> dir_ok (d' ! nat (dp + x)))"
proof -
  let ?P = "\<lambda>pre (s :: real list \<times> real list).
     (\<forall>c. S c \<longrightarrow> dir_ok (snd s ! c)) \<and>
     (\<forall>x. 0 \<le> x \<and> x < int (length pre) \<longrightarrow> dir_ok (snd s ! nat (dp + x)))"
  have "?P [0..w - 1] (g', d')"
  proof (rule for_loop_partial[OF run, where P = ?P])
    show "?P [] (g, d)" using S by auto
  next
    fix pre k post and s s' :: "real list \<times> real list"
    assume dec: "[0..w - 1] = pre @ k # post" and P: "?P pre s"
      and step: "(case s of (gbuf, dbuf) \<Rightarrow> do {
           (gx, gy) \<leftarrow> detectEdge_stencil bbuf srcpp srcp srcpn opr k;
           gbuf \<leftarrow> wr gbuf (gp + k) (detectEdge_gradient gx gy);
           dbuf \<leftarrow> (if m \<noteq> 1 then wr dbuf (dp + k) (detectEdge_direction gx gy) else Some dbuf);
           Some (gbuf, dbuf) }) = Some s'"
    have k: "k = int (length pre)" using upto_decomp(1)[OF dec] by simp
    obtain gb db where s: "s = (gb, db)" by (cases s)
    from step m obtain gx gy where
      s': "snd s' = db[nat (dp + k) := detectEdge_direction gx gy]"
      and r: "0 \<le> dp + k" "nat (dp + k) < length db"
      unfolding s by (auto simp: wr_def split: Option.bind_splits if_splits)
    have v: "dir_ok (detectEdge_direction gx gy)"
      using detectEdge_direction_range0[of gx gy] by (simp add: dir_ok_def)
    have upd: "dir_ok (snd s' ! c)" if "dir_ok (db ! c) \<or> c = nat (dp + k)" for c
      using that s' r v by (cases "c = nat (dp + k)") auto
    show "?P (pre @ [k]) s'"
    proof (intro conjI allI impI)
      fix c assume "S c"
      with P show "dir_ok (snd s' ! c)" unfolding s by (intro upd) simp
    next
      fix x assume x: "0 \<le> x \<and> x < int (length (pre @ [k]))"
      show "dir_ok (snd s' ! nat (dp + x))"
      proof (cases "x = k")
        case True
        then show ?thesis by (intro upd) simp
      next
        case False
        with x k have "0 \<le> x \<and> x < int (length pre)" by simp
        with P show ?thesis unfolding s by (intro upd) simp
      qed
    qed
  qed
  moreover have "x < int (length [0..w - 1])" if "0 \<le> x" "x < w" for x
    using that by simp
  ultimately show ?thesis by simp
qed

lemma detectEdge_dir_ok:
  assumes run: "detectEdge bbuf blur gbuf gradient dbuf direction w h stride bs m opr = Some (bb', gb', db')"
    and m: "m \<noteq> 1"
    and x: "0 \<le> x" "x < w" and y: "0 \<le> y" "y < h"
  shows "dir_ok (db' ! nat (direction + stride * y + x))"
proof -
  let ?cells = "\<lambda>n c. \<exists>x y. c = nat (direction + stride * y + x) \<and> 0 \<le> x \<and> x < w \<and> 0 \<le> y \<and> y < int n"
  let ?P = "\<lambda>pre (s :: real list \<times> real list \<times> real list \<times> int \<times> int \<times> int \<times> int \<times> int).
     (case s of (bbuf, gbuf, dbuf, srcpp, srcp, srcpn, gp, dp) \<Rightarrow>
        dp = direction + stride * int (length pre) \<and> (\<forall>c. ?cells (length pre) c \<longrightarrow> dir_ok (dbuf ! c)))"
  from run obtain b1 s0 where
    loop: "for_loop [0..h - 1]
         (\<lambda>y (bbuf, gbuf, dbuf, srcpp, srcp, srcpn, gradient, direction). do {
            v \<leftarrow> rd bbuf srcpn;
            bbuf \<leftarrow> wr bbuf (srcpn - 1) v;
            v \<leftarrow> rd bbuf (srcpn + w - 1);
            bbuf \<leftarrow> wr bbuf (srcpn + w) v;
            (gbuf, dbuf) \<leftarrow>
              for_loop [0..w - 1]
                (\<lambda>x (gbuf, dbuf). do {
                   (gx, gy) \<leftarrow> detectEdge_stencil bbuf srcpp srcp srcpn opr x;
                   gbuf \<leftarrow> wr gbuf (gradient + x) (detectEdge_gradient gx gy);
                   dbuf \<leftarrow> (if m \<noteq> 1
                             then wr dbuf (direction + x) (detectEdge_direction gx gy)
                             else Some dbuf);
                   Some (gbuf, dbuf) })
                (gbuf, dbuf);
            Some (bbuf, gbuf, dbuf, srcp, srcpn,
                  (if y < h - 2 then srcpn + bs else srcpn),
                  gradient + stride, direction + stride) })
         (b1, gbuf, dbuf, blur, blur, blur + bs, gradient, direction) = Some s0"
    and res: "fst (snd (snd s0)) = db'"
    unfolding detectEdge_def Let_def
    by (auto split: Option.bind_splits prod.splits)
  have "?P [0..h - 1] s0"
  proof (rule for_loop_partial[OF loop, where P = ?P])
    show "?P [] (b1, gbuf, dbuf, blur, blur, blur + bs, gradient, direction)" by auto
  next
    fix pre k post and s s' :: "real list \<times> real list \<times> real list \<times> int \<times> int \<times> int \<times> int \<times> int"
    assume dec: "[0..h - 1] = pre @ k # post" and P: "?P pre s"
      and step: "(case s of (bbuf, gbuf, dbuf, srcpp, srcp, srcpn, gradient, direction) \<Rightarrow> do {
            v \<leftarrow> rd bbuf srcpn;
            bbuf \<leftarrow> wr bbuf (srcpn - 1) v;
            v \<leftarrow> rd bbuf (srcpn + w - 1);
            bbuf \<leftarrow> wr bbuf (srcpn + w) v;
            (gbuf, dbuf) \<leftarrow>
              for_loop [0..w - 1]
                (\<lambda>x (gbuf, dbuf). do {
                   (gx, gy) \<leftarrow> detectEdge_stencil bbuf srcpp srcp srcpn opr x;
                   gbuf \<leftarrow> wr gbuf (gradient + x) (detectEdge_gradient gx gy);
                   dbuf \<leftarrow> (if m \<noteq> 1
                             then wr dbuf (direction + x) (detectEdge_direction gx gy)
                             else Some dbuf);
                   Some (gbuf, dbuf) })
                (gbuf, dbuf);
            Some (bbuf, gbuf, dbuf, srcp, srcpn,
                  (if k < h - 2 then srcpn + bs else srcpn),
                  gradient + stride, direction + stride) }) = Some s'"
    have k: "k = int (length pre)" using upto_decomp(1)[OF dec] by simp
    obtain bb gb db pp p pn gp dp where s: "s = (bb, gb, db, pp, p, pn, gp, dp)"
      by (cases s) auto
    from P have dp: "dp = direction + stride * int (length pre)"
      and old: "\<And>c. ?cells (length pre) c \<Longrightarrow> dir_ok (db ! c)"
      unfolding s by auto
    from step obtain bb2 g2 d2 p3 where
      row: "for_loop [0..w - 1]
                (\<lambda>x (gbuf, dbuf). do {
                   (gx, gy) \<leftarrow> detectEdge_stencil bb2 pp p pn opr x;
                   gbuf \<leftarrow> wr gbuf (gp + x) (detectEdge_gradient gx gy);
                   dbuf \<leftarrow> (if m \<noteq> 1
                             then wr dbuf (dp + x) (detectEdge_direction gx gy)
                             else Some dbuf);
                   Some (gbuf, dbuf) })
                (gb, db) = Some (g2, d2)"
      and s': "s' = (bb2, g2, d2, p, pn, p3, gp + stride, dp + stride)"
      unfolding s by (auto split: Option.bind_splits prod.splits)
    have new: "(\<forall>c. ?cells (length pre) c \<longrightarrow> dir_ok (d2 ! c)) \<and>
               (\<forall>x. 0 \<le> x \<and> x < w \<longrightarrow> dir_ok (d2 ! nat (dp + x)))"
      by (rule detectEdge_row_dir[OF row m old])
    have "dir_ok (d2 ! c)" if "?cells (length (pre @ [k])) c" for c
    proof -
      from that obtain x y where c: "c = nat (direction + stride * y + x)"
        and xy: "0 \<le> x" "x < w" "0 \<le> y" "y < int (length pre) + 1"
        by auto
      show ?thesis
      proof (cases "y = int (length pre)")
        case True
        then have "c = nat (dp + x)" using c dp by simp
        then show ?thesis using new xy by simp
      next
        case False
        then have "y < int (length pre)" using xy by simp
        then have "?cells (length pre) c" using c xy by blast
        then show ?thesis using new by blast
      qed
    qed
    then show "?P (pre @ [k]) s'"
      unfolding s' using dp by (simp add: algebra_simps)
  qed
  moreover obtain bb gb db pp p pn gp dp where s0: "s0 = (bb, gb, db, pp, p, pn, gp, dp)"
    by (cases s0) auto
  moreover have "int (length [0..h - 1]) = h" using y by simp
  ultimately have "\<And>c. ?cells (nat h) c \<Longrightarrow> dir_ok (db ! c)"
    by (simp add: nat_int[symmetric] del: nat_int)
  moreover have "?cells (nat h) (nat (direction + stride * y + x))" using x y by auto
  ultimately show ?thesis using res s0 by simp
qed

lemma upto_eval: "[i..j] = (if i \<le> j then i # [i + 1..j] else [])"
  by (simp add: upto.simps)

lemma detectEdge_ramp:
  "detectEdge [0, 2, 1, 0, 0, 0, 2, 1, 0, 0, 0, 2, 1, 0, 0] 1 (replicate 9 0) 0 (replicate 9 0) 0
     3 3 3 5 0 0 =
   Some ([2, 2, 1, 0, 0, 2, 2, 1, 0, 0, 2, 2, 1, 0, 0],
         [sqrt 1, sqrt 4, sqrt 1, sqrt 1, sqrt 4, sqrt 1, sqrt 1, sqrt 4, sqrt 1],
         [pi, pi, pi, pi, pi, pi, pi, pi, pi])"
  by (simp add: detectEdge_def detectEdge_stencil_def rd_def wr_def upto_eval
      detectEdge_direction_def detectEdge_gradient_def atan2_def M_PIF_def Let_def numeral_eq_Suc)

text \<open>
  C5, as amended. For every pixel \<open>(x, y)\<close> of the plane, in every mode in which
  \<open>detectEdge\<close> stores a direction (every mode but \<open>1\<close>; in mode \<open>-1\<close> the function is not
  called), the stored direction lies in the closed interval from \<open>0\<close> to \<open>pi\<close>. The upper
  end is reached: it is the direction of a gradient with \<open>gy = 0\<close> and \<open>gx < 0\<close>, which
  \<open>getBin\<close> then wraps to bin \<open>0\<close>.
\<close>

theorem detectEdge_direction_closed_interval:
  assumes "detectEdge bbuf blur gbuf gradient dbuf direction w h stride bs m opr = Some (bb', gb', db')"
    and "m \<noteq> 1" and "0 \<le> x" and "x < w" and "0 \<le> y" and "y < h"
  shows "0 \<le> db' ! nat (direction + stride * y + x) \<and> db' ! nat (direction + stride * y + x) \<le> pi"
  using detectEdge_dir_ok[OF assms] by (simp add: dir_ok_def)

theorem detectEdge_direction_closed_interval_witness:
  "\<exists>bb' gb' db'.
     detectEdge [0, 2, 1, 0, 0, 0, 2, 1, 0, 0, 0, 2, 1, 0, 0] 1 (replicate 9 0) 0 (replicate 9 0) 0
       3 3 3 5 0 0 = Some (bb', gb', db') \<and>
     (0::int) \<noteq> 1 \<and> (0::int) \<le> 1 \<and> (1::int) < 3 \<and>
     0 \<le> db' ! nat (0 + 3 * 1 + 1) \<and> db' ! nat (0 + 3 * 1 + 1) \<le> pi"
  using detectEdge_direction_closed_interval[OF detectEdge_ramp, of 1 1]
  by (simp add: detectEdge_ramp)

text \<open>
  C5 as the specification states it (the direction is strictly below \<open>pi\<close>) fails on a
  plane of three rows \<open>2, 1, 0\<close> with the operator \<open>0\<close>: at the centre pixel \<open>gx = - 2\<close> and
  \<open>gy = 0\<close>, and the stored direction is \<open>pi\<close>.
\<close>

theorem detectEdge_direction_counterexample:
  "\<exists>bb' gb' db'.
     detectEdge [0, 2, 1, 0, 0, 0, 2, 1, 0, 0, 0, 2, 1, 0, 0] 1 (replicate 9 0) 0 (replicate 9 0) 0
       3 3 3 5 0 0 = Some (bb', gb', db') \<and>
     \<not> db' ! nat (0 + 3 * 1 + 1) < pi"
  by (simp add: detectEdge_ramp)

section \<open>Non-maximum suppression meets its specification\<close>

lemma plane_in_index:
  assumes "plane_in buf p s w h" and "0 \<le> x" "x < w" "0 \<le> y" "y < h"
  shows "0 \<le> p + (s * y + x)" and "p + (s * y + x) < int (length buf)"
proof -
  from assms(1) have s: "0 \<le> s" and p: "0 \<le> p"
    and e: "p + (s * (h - 1) + w) \<le> int (length buf)"
    by (auto simp: plane_in_def)
  have 1: "0 \<le> s * y" using s assms(4) by simp
  have 2: "s * y \<le> s * (h - 1)" using s assms(5) by (intro mult_left_mono) auto
  show "0 \<le> p + (s * y + x)" using 1 p assms(2) by linarith
  show "p + (s * y + x) < int (length buf)" using 2 e assms(3) by linarith
qed

lemma plane_row_less:
  assumes "w \<le> s" "0 \<le> x" "x' < w" "y' < (y::int)" "0 \<le> s"
  shows "s * y' + x' < s * y + x"
proof -
  have "y' + 1 \<le> y" using assms(4) by simp
  then have "s * (y' + 1) \<le> s * y" using assms(5) by (rule mult_left_mono)
  then show ?thesis using assms by (simp add: distrib_left)
qed

lemma plane_index_inj:
  assumes "w \<le> s" "0 \<le> x" "x < w" "0 \<le> x'" "x' < w" "s * y + x = s * y' + (x'::int)"
  shows "x = x' \<and> y = y'"
proof -
  have s: "0 \<le> s" using assms by linarith
  have "\<not> y' < y" using plane_row_less[OF assms(1,2,5) _ s, of y' y] assms(6) by auto
  moreover have "\<not> y < y'" using plane_row_less[OF assms(1,4,3) _ s, of y y'] assms(6) by auto
  ultimately have "y = y'" by simp
  then show ?thesis using assms(6) by simp
qed

lemma getBin_T_4:
  assumes "0 \<le> dir"
  shows "getBin_T dir 4 = (let b = \<lfloor>dir * 4 / pi + 0.5\<rfloor> in if b \<ge> 4 then 0 else b)"
    and "0 \<le> getBin_T dir 4" and "getBin_T dir 4 < 4"
proof -
  have "0 \<le> dir * 4 / pi" using assms by simp
  then have nn: "0 \<le> dir * 4 / pi + 0.5" by simp
  then have f: "0 \<le> \<lfloor>dir * 4 / pi + 0.5\<rfloor>" by simp
  have c: "static_cast_int (dir * real_of_int 4 * M_1_PIF + 0.5) = \<lfloor>dir * 4 / pi + 0.5\<rfloor>"
    using nn by (simp add: static_cast_int_def M_1_PIF_def)
  show "getBin_T dir 4 = (let b = \<lfloor>dir * 4 / pi + 0.5\<rfloor> in if b \<ge> 4 then 0 else b)"
    unfolding getBin_T_def c by simp
  then show "0 \<le> getBin_T dir 4" and "getBin_T dir 4 < 4"
    using f by (auto simp: Let_def)
qed


lemma rd_pixel:
  assumes "plane_in buf p s w h" and "0 \<le> x" "x < w" "0 \<le> y" "y < h" and "i = p + (s * y + x)"
  shows "rd buf i = Some (pixel buf p s x y)"
  using plane_in_index[OF assms(1-5)] assms(6) by (simp add: rd_def pixel_def)

lemma nms_pixel_step:
  assumes G: "plane_in gbuf g stride w h" and D: "plane_in dbuf d stride w h"
    and x: "1 \<le> x" "x \<le> w - 2" and y: "1 \<le> y" "y \<le> h - 2"
    and dir: "0 \<le> pixel dbuf d stride x y"
    and gq: "gq = g + stride * y" and dq: "dq = d + stride * y"
  shows "do {
      dir \<leftarrow> rd dbuf (dq + x);
      offset \<leftarrow> rd [1, - stride + 1, - stride, - stride - 1] (getBin_T dir 4);
      gv \<leftarrow> rd gbuf (gq + x);
      gp \<leftarrow> rd gbuf (gq + x + offset);
      gm \<leftarrow> rd gbuf (gq + x - offset);
      wr bb (bq + x) (if gv \<ge> max gp gm then gv else - FLT_MAX) }
    = wr bb (bq + x) (nms_spec (pixel gbuf g stride) (pixel dbuf d stride) w h x y)"
proof -
  define bin where "bin = getBin_T (pixel dbuf d stride x y) 4"
  have bins: "bin = 0 \<or> bin = 1 \<or> bin = 2 \<or> bin = 3"
    using getBin_T_4(2,3)[OF dir] unfolding bin_def by arith
  have binf: "bin = (let b = \<lfloor>pixel dbuf d stride x y * 4 / pi + 0.5\<rfloor> in if b \<ge> 4 then 0 else b)"
    unfolding bin_def by (rule getBin_T_4(1)[OF dir])
  have rdir: "rd dbuf (dq + x) = Some (pixel dbuf d stride x y)"
    by (rule rd_pixel[OF D]) (use x y dq in auto)
  have nb: "rd gbuf i = Some (pixel gbuf g stride (x + dx) (y + dy))"
    if "- 1 \<le> dx" "dx \<le> 1" "- 1 \<le> dy" "dy \<le> 1" "i = gq + x + (stride * dy + dx)" for dx dy i
    by (rule rd_pixel[OF G]) (use x y that gq in \<open>auto simp: algebra_simps\<close>)
  have c: "rd gbuf (gq + x) = Some (pixel gbuf g stride x y)"
    using nb[of 0 0 "gq + x"] by simp
  have r0: "rd gbuf (gq + x + 1) = Some (pixel gbuf g stride (x + 1) y)"
    using nb[of 1 0 "gq + x + 1"] by simp
  have l0: "rd gbuf (gq + x - 1) = Some (pixel gbuf g stride (x - 1) y)"
    using nb[of "- 1" 0 "gq + x - 1"] by simp
  have ur: "rd gbuf (gq + x + (- stride + 1)) = Some (pixel gbuf g stride (x + 1) (y - 1))"
    using nb[of 1 "- 1" "gq + x + (- stride + 1)"] by simp
  have dl: "rd gbuf (gq + x - (- stride + 1)) = Some (pixel gbuf g stride (x - 1) (y + 1))"
    using nb[of "- 1" 1 "gq + x - (- stride + 1)"] by simp
  have u: "rd gbuf (gq + x + (- stride)) = Some (pixel gbuf g stride x (y - 1))"
    using nb[of 0 "- 1" "gq + x + (- stride)"] by simp
  have dn: "rd gbuf (gq + x - (- stride)) = Some (pixel gbuf g stride x (y + 1))"
    using nb[of 0 1 "gq + x - (- stride)"] by simp
  have ul: "rd gbuf (gq + x + (- stride - 1)) = Some (pixel gbuf g stride (x - 1) (y - 1))"
    using nb[of "- 1" "- 1" "gq + x + (- stride - 1)"] by simp
  have dr: "rd gbuf (gq + x - (- stride - 1)) = Some (pixel gbuf g stride (x + 1) (y + 1))"
    using nb[of 1 1 "gq + x - (- stride - 1)"] by simp
  have spec: "nms_spec (pixel gbuf g stride) (pixel dbuf d stride) w h x y =
      (let (dx, dy) = (if bin = 0 then (1, 0) else if bin = 1 then (1, - 1)
                       else if bin = 2 then (0, - 1) else (- 1, - 1))
       in if pixel gbuf g stride x y \<ge> pixel gbuf g stride (x + dx) (y + dy) \<and>
             pixel gbuf g stride x y \<ge> pixel gbuf g stride (x - dx) (y - dy)
          then pixel gbuf g stride x y else - FLT_MAX)"
    unfolding nms_spec_def binf using x y by (simp add: Let_def)
  have off: "rd [1, - stride + 1, - stride, - stride - 1] 0 = Some 1"
    "rd [1, - stride + 1, - stride, - stride - 1] 1 = Some (- stride + 1)"
    "rd [1, - stride + 1, - stride, - stride - 1] 2 = Some (- stride)"
    "rd [1, - stride + 1, - stride, - stride - 1] 3 = Some (- stride - 1)"
    by (simp_all add: rd_def)
  from bins show ?thesis
  proof (elim disjE)
    assume b: "bin = 0"
    show ?thesis
      unfolding rdir spec using b c r0 l0 off
      by (simp add: bin_def[symmetric])
  next
    assume b: "bin = 1"
    show ?thesis
      unfolding rdir spec using b c ur dl off
      by (simp add: bin_def[symmetric])
  next
    assume b: "bin = 2"
    show ?thesis
      unfolding rdir spec using b c u dn off
      by (simp add: bin_def[symmetric])
  next
    assume b: "bin = 3"
    show ?thesis
      unfolding rdir spec using b c ul dr off
      by (simp add: bin_def[symmetric])
  qed
qed


lemma nms_spec_border:
  "\<not> (1 \<le> x \<and> x \<le> w - 2 \<and> 1 \<le> y \<and> y \<le> h - 2) \<Longrightarrow> nms_spec G D w h x y = - FLT_MAX"
  by (subst nms_spec_def) (rule if_not_P)

lemma nonMaximumSuppression_correct:
  assumes G: "plane_in gbuf g stride w h" and D: "plane_in dbuf d stride w h"
    and B: "plane_in bbuf b bs w h" and h2: "2 \<le> h"
    and dir: "\<And>x y. 1 \<le> x \<Longrightarrow> x \<le> w - 2 \<Longrightarrow> 1 \<le> y \<Longrightarrow> y \<le> h - 2 \<Longrightarrow> 0 \<le> pixel dbuf d stride x y"
  shows "\<exists>bb'. nonMaximumSuppression gbuf g dbuf d bbuf b w h stride bs = Some bb' \<and>
           length bb' = length bbuf \<and>
           (\<forall>x y. 0 \<le> x \<and> x < w \<and> 0 \<le> y \<and> y < h \<longrightarrow>
              pixel bb' b bs x y = nms_spec (pixel gbuf g stride) (pixel dbuf d stride) w h x y)"
proof -
  let ?spec = "nms_spec (pixel gbuf g stride) (pixel dbuf d stride) w h"
  let ?n = "length bbuf"
  from B have w0: "0 < w" and wbs: "w \<le> bs" and b0: "0 \<le> b" and bs0: "0 \<le> bs"
    by (auto simp: plane_in_def)
  note bi = plane_in_index[OF B]
  \<comment> \<open>the first row\<close>
  have "\<exists>b'. for_loop [0..w - 1] (\<lambda>k b'. wr b' (b + k) (- FLT_MAX)) bbuf = Some b' \<and> length b' = ?n \<and>
           (\<forall>i. 0 \<le> i \<longrightarrow> b' ! nat i = (if b + 0 \<le> i \<and> i \<le> b + (w - 1) then - FLT_MAX else bbuf ! nat i))"
    by (rule for_loop_write_row) (use bi[of "w - 1" 0] w0 h2 b0 in auto)
  then obtain b1 where f1: "fill_n bbuf b w (- FLT_MAX) = Some b1" and l1: "length b1 = ?n"
    and c1: "\<And>i. 0 \<le> i \<Longrightarrow> b1 ! nat i = (if b \<le> i \<and> i \<le> b + (w - 1) then - FLT_MAX else bbuf ! nat i)"
    unfolding fill_n_def by auto
  \<comment> \<open>the rows \<open>1\<close> to \<open>h - 2\<close>\<close>
  let ?P = "\<lambda>pre (s :: real list \<times> int \<times> int \<times> int).
     (case s of (bb, gp, dp, bp) \<Rightarrow>
        gp = g + stride * int (length pre) \<and> dp = d + stride * int (length pre) \<and>
        bp = b + bs * int (length pre) \<and> length bb = ?n \<and>
        (\<forall>x y. 0 \<le> x \<and> x < w \<and> 0 \<le> y \<and> y \<le> int (length pre) \<longrightarrow> pixel bb b bs x y = ?spec x y))"
  let ?body = "(\<lambda>y (bbuf, gradient, direction, blur). do {
               let gradient = gradient + stride;
               let direction = direction + stride;
               let blur = blur + bs;
               bbuf \<leftarrow>
                 for_loop [1..w - 2]
                   (\<lambda>x bbuf. do {
                      dir \<leftarrow> rd dbuf (direction + x);
                      offset \<leftarrow> rd [1, - stride + 1, - stride, - stride - 1] (getBin_T dir 4);
                      g \<leftarrow> rd gbuf (gradient + x);
                      gp \<leftarrow> rd gbuf (gradient + x + offset);
                      gm \<leftarrow> rd gbuf (gradient + x - offset);
                      wr bbuf (blur + x) (if g \<ge> max gp gm then g else - FLT_MAX) })
                   bbuf;
               bbuf \<leftarrow> wr bbuf (blur + w - 1) (- FLT_MAX);
               bbuf \<leftarrow> wr bbuf blur (- FLT_MAX);
               Some (bbuf, gradient, direction, blur) })"
  have "\<exists>s'. for_loop [1..h - 2] ?body (b1, g, d, b) = Some s' \<and> ?P [1..h - 2] s'"
  proof (rule for_loop_total[where P = ?P])
    have "pixel b1 b bs x 0 = ?spec x 0" if "0 \<le> x" "x < w" for x
      using c1[of "b + x"] that b0 by (simp add: pixel_def nms_spec_border)
    then show "?P [] (b1, g, d, b)" using l1 by auto
  next
    fix pre k post and s :: "real list \<times> int \<times> int \<times> int"
    assume dec: "[1..h - 2] = pre @ k # post" and P: "?P pre s"
    note k = upto_decomp[OF dec]
    obtain bb gp dp bp where s: "s = (bb, gp, dp, bp)" by (cases s)
    from P have gp: "gp = g + stride * int (length pre)" and dp: "dp = d + stride * int (length pre)"
      and bp: "bp = b + bs * int (length pre)" and lbb: "length bb = ?n"
      and old: "\<And>x y. 0 \<le> x \<Longrightarrow> x < w \<Longrightarrow> 0 \<le> y \<Longrightarrow> y \<le> int (length pre) \<Longrightarrow> pixel bb b bs x y = ?spec x y"
      unfolding s by auto
    define gq where "gq = gp + stride"
    define dq where "dq = dp + stride"
    define bq where "bq = bp + bs"
    have gq: "gq = g + stride * k" and dq: "dq = d + stride * k" and bq: "bq = b + bs * k"
      unfolding gq_def dq_def bq_def gp dp bp k(1) by (simp_all add: algebra_simps)
    have kh: "1 \<le> k" "k \<le> h - 2" using k by auto
    have rowi: "0 \<le> bq + x" "bq + x < int ?n" if "0 \<le> x" "x < w" for x
      using bi[of x k] that kh unfolding bq by auto
    have "\<exists>b'. for_loop [1..w - 2]
                   (\<lambda>x bbuf. do {
                      dir \<leftarrow> rd dbuf (dq + x);
                      offset \<leftarrow> rd [1, - stride + 1, - stride, - stride - 1] (getBin_T dir 4);
                      g \<leftarrow> rd gbuf (gq + x);
                      gp \<leftarrow> rd gbuf (gq + x + offset);
                      gm \<leftarrow> rd gbuf (gq + x - offset);
                      wr bbuf (bq + x) (if g \<ge> max gp gm then g else - FLT_MAX) }) bb = Some b' \<and>
           length b' = ?n \<and>
           (\<forall>i. 0 \<le> i \<longrightarrow> b' ! nat i = (if bq + 1 \<le> i \<and> i \<le> bq + (w - 2) then ?spec (i - bq) k else bb ! nat i))"
    proof (rule for_loop_write_row[where f = "\<lambda>x. ?spec x k"])
      fix x and b' :: "real list"
      assume "1 \<le> x" "x \<le> w - 2" "length b' = ?n"
      then show "do {
                      dir \<leftarrow> rd dbuf (dq + x);
                      offset \<leftarrow> rd [1, - stride + 1, - stride, - stride - 1] (getBin_T dir 4);
                      g \<leftarrow> rd gbuf (gq + x);
                      gp \<leftarrow> rd gbuf (gq + x + offset);
                      gm \<leftarrow> rd gbuf (gq + x - offset);
                      wr b' (bq + x) (if g \<ge> max gp gm then g else - FLT_MAX) }
           = wr b' (bq + x) (?spec x k)"
        by (intro nms_pixel_step[OF G D _ _ kh dir gq dq]) (use kh in auto)
    next
      show "0 \<le> bq + 1" using rowi(1)[of 0] w0 by simp
      show "bq + (w - 2) < int ?n" using rowi(2)[of "w - 1"] w0 by simp
      show "length bb = ?n" by (rule lbb)
    qed
    then obtain b2 where r2: "for_loop [1..w - 2]
                   (\<lambda>x bbuf. do {
                      dir \<leftarrow> rd dbuf (dq + x);
                      offset \<leftarrow> rd [1, - stride + 1, - stride, - stride - 1] (getBin_T dir 4);
                      g \<leftarrow> rd gbuf (gq + x);
                      gp \<leftarrow> rd gbuf (gq + x + offset);
                      gm \<leftarrow> rd gbuf (gq + x - offset);
                      wr bbuf (bq + x) (if g \<ge> max gp gm then g else - FLT_MAX) }) bb = Some b2"
      and l2: "length b2 = ?n"
      and c2: "\<And>i. 0 \<le> i \<Longrightarrow> b2 ! nat i = (if bq + 1 \<le> i \<and> i \<le> bq + (w - 2) then ?spec (i - bq) k else bb ! nat i)"
      by blast
    define b3 where "b3 = b2[nat (bq + w - 1) := - FLT_MAX]"
    define b4 where "b4 = b3[nat bq := - FLT_MAX]"
    have w3: "wr b2 (bq + w - 1) (- FLT_MAX) = Some b3"
      using rowi[of "w - 1"] w0 l2 by (simp add: wr_Some b3_def)
    have w4: "wr b3 bq (- FLT_MAX) = Some b4"
      using rowi[of 0] w0 l2 by (simp add: wr_Some b4_def b3_def)
    have step: "?body k s = Some (b4, gq, dq, bq)"
      unfolding s
      by (simp only: case_prod_conv Let_def gq_def[symmetric] dq_def[symmetric] bq_def[symmetric]
          r2 w3 w4 Option.bind.simps)
    have l3: "length b3 = ?n" and l4: "length b4 = ?n" using l2 by (simp_all add: b3_def b4_def)
    have q: "0 \<le> bq" "0 \<le> bq + w - 1" "bq < int ?n" "bq + w - 1 < int ?n"
      using rowi[of 0] rowi[of "w - 1"] w0 by auto
    have c4: "b4 ! nat i = (if i = bq \<or> i = bq + w - 1 then - FLT_MAX
                           else if bq + 1 \<le> i \<and> i \<le> bq + (w - 2) then ?spec (i - bq) k else bb ! nat i)"
      if i: "0 \<le> i" "i < int ?n" for i
    proof -
      have e1: "(nat bq = nat i) = (i = bq)" and e2: "(nat (bq + w - 1) = nat i) = (i = bq + w - 1)"
        using i q by auto
      have 4: "b4 ! nat i = (if i = bq then - FLT_MAX else b3 ! nat i)"
        unfolding b4_def using q l3 e1 by (simp add: nth_list_update)
      have 3: "b3 ! nat i = (if i = bq + w - 1 then - FLT_MAX else b2 ! nat i)"
        unfolding b3_def using q l2 e2 by (simp add: nth_list_update)
      show ?thesis unfolding 4 3 c2[OF i(1)] by simp
    qed
    have "pixel b4 b bs x y = ?spec x y" if xy: "0 \<le> x" "x < w" "0 \<le> y" "y \<le> int (length (pre @ [k]))" for x y
    proof (cases "y = k")
      case True
      have "pixel b4 b bs x y = b4 ! nat (bq + x)" unfolding pixel_def bq True by (simp add: algebra_simps)
      also have "\<dots> = (if x = 0 \<or> x = w - 1 then - FLT_MAX else ?spec x k)"
        unfolding c4[OF rowi[OF xy(1,2)]] using xy by simp
      also have "\<dots> = ?spec x y"
        unfolding True by (auto simp: nms_spec_border)
      finally show ?thesis .
    next
      case False
      then have yk: "y < k" using xy k(1) by simp
      have lt: "b + (bs * y + x) < bq"
        using plane_row_less[OF wbs _ xy(2) yk bs0, of 0] unfolding bq by simp
      have i: "0 \<le> b + (bs * y + x)" "b + (bs * y + x) < int ?n"
        using bi[of x y] xy yk kh by auto
      have "pixel b4 b bs x y = bb ! nat (b + (bs * y + x))"
        unfolding pixel_def c4[OF i] using lt w0 by simp
      also have "\<dots> = ?spec x y"
        using old[of x y] xy yk k(1) by (simp add: pixel_def)
      finally show ?thesis .
    qed
    moreover have kk: "int (length (pre @ [k])) = k" using k(1) by simp
    ultimately have "?P (pre @ [k]) (b4, gq, dq, bq)"
      unfolding kk using gq dq bq l4 by simp
    with step show "\<exists>s'. ?body k s = Some s' \<and> ?P (pre @ [k]) s'" by blast
  qed
  then obtain s' where loop: "for_loop [1..h - 2] ?body (b1, g, d, b) = Some s'"
    and P: "?P [1..h - 2] s'" by blast
  obtain bb gp dp bp where s': "s' = (bb, gp, dp, bp)" by (cases s')
  have len: "int (length [1..h - 2]) = h - 2" using h2 by simp
  from P have bp: "bp = b + bs * (h - 2)" and lbb: "length bb = ?n"
    and old: "\<And>x y. 0 \<le> x \<Longrightarrow> x < w \<Longrightarrow> 0 \<le> y \<Longrightarrow> y \<le> h - 2 \<Longrightarrow> pixel bb b bs x y = ?spec x y"
    unfolding s' len by auto
  \<comment> \<open>the last row\<close>
  have last: "bp + bs = b + bs * (h - 1)" unfolding bp by (simp add: algebra_simps)
  have "\<exists>b'. for_loop [0..w - 1] (\<lambda>k b'. wr b' (bp + bs + k) (- FLT_MAX)) bb = Some b' \<and> length b' = ?n \<and>
           (\<forall>i. 0 \<le> i \<longrightarrow> b' ! nat i = (if bp + bs + 0 \<le> i \<and> i \<le> bp + bs + (w - 1) then - FLT_MAX else bb ! nat i))"
    by (rule for_loop_write_row) (use bi[of 0 "h - 1"] bi[of "w - 1" "h - 1"] w0 h2 lbb last in auto)
  then obtain b5 where f5: "fill_n bb (bp + bs) w (- FLT_MAX) = Some b5" and l5: "length b5 = ?n"
    and c5: "\<And>i. 0 \<le> i \<Longrightarrow> b5 ! nat i = (if bp + bs \<le> i \<and> i \<le> bp + bs + (w - 1) then - FLT_MAX else bb ! nat i)"
    unfolding fill_n_def by auto
  have res: "nonMaximumSuppression gbuf g dbuf d bbuf b w h stride bs = Some b5"
    unfolding nonMaximumSuppression_def Let_def
    by (simp only: f1 loop[unfolded Let_def] f5 s' Option.bind.simps case_prod_conv)
  have "pixel b5 b bs x y = ?spec x y" if xy: "0 \<le> x" "x < w" "0 \<le> y" "y < h" for x y
  proof (cases "y = h - 1")
    case True
    have "pixel b5 b bs x y = b5 ! nat (bp + bs + x)"
      unfolding pixel_def last True by (simp add: algebra_simps)
    also have "\<dots> = - FLT_MAX"
      using c5[of "bp + bs + x"] bi(1)[of x "h - 1"] xy h2 last by auto
    also have "\<dots> = ?spec x y" unfolding True by (simp add: nms_spec_border)
    finally show ?thesis .
  next
    case False
    then have yh: "y < h - 1" using xy by simp
    have lt: "b + (bs * y + x) < bp + bs"
      using plane_row_less[OF wbs _ xy(2) yh bs0, of 0] unfolding last by simp
    have "pixel b5 b bs x y = bb ! nat (b + (bs * y + x))"
      unfolding pixel_def using c5[of "b + (bs * y + x)"] bi(1)[of x y] xy lt by auto
    also have "\<dots> = ?spec x y" using old[of x y] xy yh by (simp add: pixel_def)
    finally show ?thesis .
  qed
  with res l5 show ?thesis by blast
qed

lemma nms_spec_cases: "nms_spec G D w h x y = G x y \<or> nms_spec G D w h x y = - FLT_MAX"
  by (auto simp: nms_spec_def Let_def split: prod.splits)

lemma FLT_MAX_pos: "0 < FLT_MAX"
  by (simp add: FLT_MAX_def)

text \<open>
  C2. On a plane of at least two rows whose buffers hold it, and with directions that
  are not negative (as \<open>detectEdge\<close> stores them), \<open>nonMaximumSuppression\<close> returns, and
  every pixel of the plane then holds what the specification says: an interior pixel
  \<open>(x, y)\<close>, with \<open>x\<close> from \<open>1\<close> to \<open>w - 2\<close> and \<open>y\<close> from \<open>1\<close> to \<open>h - 2\<close>, is compared with its two
  neighbours along the axis of its bin \<open>floor (direction * 4 / pi + 0.5)\<close> (\<open>4\<close> wraps to
  \<open>0\<close>), keeps its magnitude if it is at least both and becomes \<open>- FLT_MAX\<close> otherwise; a
  pixel of the first or last row or column becomes \<open>- FLT_MAX\<close>.
\<close>

theorem nonMaximumSuppression_spec:
  assumes "plane_in gbuf g stride w h" and "plane_in dbuf d stride w h"
    and "plane_in bbuf b bs w h" and "2 \<le> h"
    and "\<And>x y. 1 \<le> x \<Longrightarrow> x \<le> w - 2 \<Longrightarrow> 1 \<le> y \<Longrightarrow> y \<le> h - 2 \<Longrightarrow> 0 \<le> pixel dbuf d stride x y"
  shows "\<exists>bb'. nonMaximumSuppression gbuf g dbuf d bbuf b w h stride bs = Some bb' \<and>
           (\<forall>x y. 0 \<le> x \<and> x < w \<and> 0 \<le> y \<and> y < h \<longrightarrow>
              pixel bb' b bs x y = nms_spec (pixel gbuf g stride) (pixel dbuf d stride) w h x y)"
  using nonMaximumSuppression_correct[OF assms] by blast

lemma nms_example_planes:
  "plane_in [1, 3, 1, 1, 5, 1, 1, 4, 1 :: real] 0 3 3 3"
  "plane_in [0, 0, 0, 0, pi / 2, 0, 0, 0, 0 :: real] 0 3 3 3"
  "plane_in [7, 7, 7, 7, 7, 7, 7, 7, 7 :: real] 0 3 3 3"
  by (simp_all add: plane_in_def)

lemma nms_example_direction:
  "1 \<le> x \<Longrightarrow> x \<le> 3 - 2 \<Longrightarrow> 1 \<le> y \<Longrightarrow> y \<le> 3 - 2 \<Longrightarrow>
     0 \<le> pixel [0, 0, 0, 0, pi / 2, 0, 0, 0, 0 :: real] 0 3 x y"
  for x y :: int
proof -
  assume "1 \<le> x" "x \<le> 3 - 2" "1 \<le> y" "y \<le> 3 - 2"
  then have "x = 1" "y = 1" by auto
  then show ?thesis by (simp add: pixel_def)
qed

theorem nonMaximumSuppression_spec_witness:
  "\<exists>bb'. nonMaximumSuppression [1, 3, 1, 1, 5, 1, 1, 4, 1] 0 [0, 0, 0, 0, pi / 2, 0, 0, 0, 0] 0
            [7, 7, 7, 7, 7, 7, 7, 7, 7] 0 3 3 3 3 = Some bb' \<and>
         pixel bb' 0 3 1 1 = 5 \<and> pixel bb' 0 3 0 0 = - FLT_MAX \<and> pixel bb' 0 3 2 1 = - FLT_MAX"
proof -
  from nonMaximumSuppression_spec[OF nms_example_planes _ nms_example_direction]
  obtain bb' where r: "nonMaximumSuppression [1, 3, 1, 1, 5, 1, 1, 4, 1] 0
            [0, 0, 0, 0, pi / 2, 0, 0, 0, 0] 0 [7, 7, 7, 7, 7, 7, 7, 7, 7] 0 3 3 3 3 = Some bb'"
    and p: "\<And>x y. 0 \<le> x \<and> x < 3 \<and> 0 \<le> y \<and> y < 3 \<Longrightarrow>
              pixel bb' 0 3 x y = nms_spec (pixel [1, 3, 1, 1, 5, 1, 1, 4, 1] 0 3)
                 (pixel [0, 0, 0, 0, pi / 2, 0, 0, 0, 0] 0 3) 3 3 x y"
    by auto
  have "pixel bb' 0 3 1 1 = 5"
    using p[of 1 1] by (simp add: nms_spec_def pixel_def)
  moreover have "pixel bb' 0 3 0 0 = - FLT_MAX" "pixel bb' 0 3 2 1 = - FLT_MAX"
    using p[of 0 0] p[of 2 1] by (simp_all add: nms_spec_def)
  ultimately show ?thesis using r by blast
qed

text \<open>
  C6. Under the same conditions, the value that non-maximum suppression leaves in a
  pixel is the pixel's gradient magnitude or \<open>- FLT_MAX\<close>, never another value; and it does
  not exceed the magnitude (a magnitude is a finite float, so it is not below
  \<open>- FLT_MAX\<close>).
\<close>

theorem nonMaximumSuppression_never_increases:
  assumes "plane_in gbuf g stride w h" and "plane_in dbuf d stride w h"
    and "plane_in bbuf b bs w h" and "2 \<le> h"
    and "\<And>x y. 1 \<le> x \<Longrightarrow> x \<le> w - 2 \<Longrightarrow> 1 \<le> y \<Longrightarrow> y \<le> h - 2 \<Longrightarrow> 0 \<le> pixel dbuf d stride x y"
  shows "\<exists>bb'. nonMaximumSuppression gbuf g dbuf d bbuf b w h stride bs = Some bb' \<and>
           (\<forall>x y. 0 \<le> x \<and> x < w \<and> 0 \<le> y \<and> y < h \<longrightarrow>
              (pixel bb' b bs x y = pixel gbuf g stride x y \<or> pixel bb' b bs x y = - FLT_MAX) \<and>
              (- FLT_MAX \<le> pixel gbuf g stride x y \<longrightarrow>
                 pixel bb' b bs x y \<le> pixel gbuf g stride x y))"
proof -
  from nonMaximumSuppression_correct[OF assms]
  obtain bb' where r: "nonMaximumSuppression gbuf g dbuf d bbuf b w h stride bs = Some bb'"
    and p: "\<And>x y. 0 \<le> x \<and> x < w \<and> 0 \<le> y \<and> y < h \<Longrightarrow>
              pixel bb' b bs x y = nms_spec (pixel gbuf g stride) (pixel dbuf d stride) w h x y"
    by blast
  have "(pixel bb' b bs x y = pixel gbuf g stride x y \<or> pixel bb' b bs x y = - FLT_MAX) \<and>
        (- FLT_MAX \<le> pixel gbuf g stride x y \<longrightarrow> pixel bb' b bs x y \<le> pixel gbuf g stride x y)"
    if "0 \<le> x \<and> x < w \<and> 0 \<le> y \<and> y < h" for x y
    using nms_spec_cases[of "pixel gbuf g stride" "pixel dbuf d stride" w h x y] p[OF that]
    by auto
  with r show ?thesis by blast
qed

theorem nonMaximumSuppression_never_increases_witness:
  "\<exists>bb'. nonMaximumSuppression [1, 3, 1, 1, 5, 1, 1, 4, 1] 0 [0, 0, 0, 0, pi / 2, 0, 0, 0, 0] 0
            [7, 7, 7, 7, 7, 7, 7, 7, 7] 0 3 3 3 3 = Some bb' \<and>
         (pixel bb' 0 3 1 0 = 3 \<or> pixel bb' 0 3 1 0 = - FLT_MAX) \<and> pixel bb' 0 3 1 0 \<le> 3"
proof -
  from nonMaximumSuppression_never_increases[OF nms_example_planes _ nms_example_direction]
  obtain bb' where r: "nonMaximumSuppression [1, 3, 1, 1, 5, 1, 1, 4, 1] 0
            [0, 0, 0, 0, pi / 2, 0, 0, 0, 0] 0 [7, 7, 7, 7, 7, 7, 7, 7, 7] 0 3 3 3 3 = Some bb'"
    and p: "\<And>x y. 0 \<le> x \<and> x < 3 \<and> 0 \<le> y \<and> y < 3 \<Longrightarrow>
              (pixel bb' 0 3 x y = pixel [1, 3, 1, 1, 5, 1, 1, 4, 1] 0 3 x y \<or> pixel bb' 0 3 x y = - FLT_MAX) \<and>
              (- FLT_MAX \<le> pixel [1, 3, 1, 1, 5, 1, 1, 4, 1] 0 3 x y \<longrightarrow>
                 pixel bb' 0 3 x y \<le> pixel [1, 3, 1, 1, 5, 1, 1, 4, 1] 0 3 x y)"
    by auto
  have g: "pixel [1, 3, 1, 1, 5, 1, 1, 4, 1 :: real] 0 3 1 0 = 3" by (simp add: pixel_def)
  have "- FLT_MAX \<le> (3::real)" using FLT_MAX_pos by simp
  with p[of 1 0] show ?thesis using r unfolding g by auto
qed

section \<open>The invariant of the hysteresis pass\<close>

lemma interior_in_plane: "interior w h p \<Longrightarrow> in_plane w h p"
  by (auto simp: interior_def in_plane_def)

lemma mask_index:
  assumes "in_plane w h p"
  shows "0 \<le> w * snd p + fst p" and "w * snd p + fst p < w * h"
proof -
  from assms have x: "0 \<le> fst p" "fst p < w" and y: "0 \<le> snd p" "snd p < h"
    by (auto simp: in_plane_def)
  have w: "0 \<le> w" using x by linarith
  have 1: "0 \<le> w * snd p" using w y by simp
  have "snd p + 1 \<le> h" using y by simp
  then have "w * (snd p + 1) \<le> w * h" using w by (rule mult_left_mono)
  then have 2: "w * snd p + w \<le> w * h" by (simp add: distrib_left)
  show "0 \<le> w * snd p + fst p" using 1 x by linarith
  show "w * snd p + fst p < w * h" using 2 x by linarith
qed

lemma mask_index_inj:
  assumes "in_plane w h p" "in_plane w h q" "w * snd p + fst p = w * snd q + fst q"
  shows "p = q"
proof -
  have "fst p = fst q \<and> snd p = snd q"
    by (rule plane_index_inj[of w w]) (use assms in \<open>auto simp: in_plane_def\<close>)
  then show ?thesis by (simp add: prod_eq_iff)
qed

lemma cell_index:
  assumes "plane_in buf b bs w h" "in_plane w h p"
  shows "0 \<le> b + (bs * snd p + fst p)" and "b + (bs * snd p + fst p) < int (length buf)"
  using plane_in_index[OF assms(1), of "fst p" "snd p"] assms(2)
  by (auto simp: in_plane_def)

lemma cell_index_inj:
  assumes "plane_in buf b bs w h" "in_plane w h p" "in_plane w h q"
    and "b + (bs * snd p + fst p) = b + (bs * snd q + fst q)"
  shows "p = q"
proof -
  have "fst p = fst q \<and> snd p = snd q"
    by (rule plane_index_inj[of w bs]) (use assms in \<open>auto simp: in_plane_def plane_in_def\<close>)
  then show ?thesis by (simp add: prod_eq_iff)
qed

lemma unvisited_pos: "i < length m \<Longrightarrow> m ! i = 0 \<Longrightarrow> 0 < unvisited m"
  unfolding unvisited_def by (auto simp: filter_empty_conv in_set_conv_nth)

lemma marked_update:
  assumes "in_plane w h p" "in_plane w h q"
    and "w * h \<le> int (length (map_s s))"
  shows "marked w (s\<lparr>map_s := (map_s s)[nat (w * snd p + fst p) := UINT8_MAX], pos := ps, index := ix\<rparr>) q
          \<longleftrightarrow> q = p \<or> marked w s q"
proof (cases "q = p")
  case True
  have "nat (w * snd p + fst p) < length (map_s s)"
    using mask_index[OF assms(1)] assms(3) by simp
  then show ?thesis using True by (simp add: marked_def UINT8_MAX_def)
next
  case False
  then have "w * snd p + fst p \<noteq> w * snd q + fst q"
    using mask_index_inj[OF assms(1,2)] by auto
  then have "nat (w * snd p + fst p) \<noteq> nat (w * snd q + fst q)"
    using mask_index(1)[OF assms(1)] mask_index(1)[OF assms(2)] by simp
  then show ?thesis using False by (simp add: marked_def)
qed

lemma stack_entries_push:
  assumes "- 1 \<le> index s" "index s + 1 < int (length (pos s))"
  shows "stack_entries (s\<lparr>map_s := m, pos := (pos s)[nat (index s + 1) := p], index := index s + 1\<rparr>)
           = stack_entries s @ [p]"
proof -
  let ?n = "nat (index s + 1)"
  have n: "?n < length (pos s)" using assms by simp
  have "nat (index s + 1 + 1) = Suc ?n" using assms by simp
  then show ?thesis
    unfolding stack_entries_def using n
    by (simp add: take_Suc_conv_app_nth)
qed

lemma stack_entries_pop:
  assumes "0 \<le> index s" "index s < int (length (pos s))"
  shows "stack_entries s = stack_entries (s\<lparr>index := index s - 1\<rparr>) @ [pos s ! nat (index s)]"
proof -
  have "nat (index s + 1) = Suc (nat (index s))" using assms by simp
  then show ?thesis
    unfolding stack_entries_def using assms
    by (simp add: take_Suc_conv_app_nth)
qed


lemma hyst_invI:
  assumes "length bb = length bbuf0"
    and "w * h \<le> int (length (map_s s))" and "w * h \<le> int (length (pos s))"
    and "- 1 \<le> index s"
    and "index s + 1 + int (unvisited (take (nat (w * h)) (map_s s))) \<le> w * h"
    and "\<And>p. in_plane w h p \<Longrightarrow> marked w s p \<Longrightarrow>
          interior w h p \<and> confirmed (plane_value bbuf0 b bs) w h hi lo p"
    and "\<And>p. p \<in> set (stack_entries s) \<Longrightarrow> in_plane w h p \<and> marked w s p"
    and "\<And>p q. in_plane w h p \<Longrightarrow> marked w s p \<Longrightarrow> adjacent8 p q \<Longrightarrow> in_plane w h q \<Longrightarrow>
            lo \<le> plane_value bbuf0 b bs q \<Longrightarrow>
            marked w s q \<or> p \<in> set (stack_entries s) \<or> (p, q) \<in> Pend"
    and "\<And>i. 0 \<le> i \<Longrightarrow> i < int (length bbuf0) \<Longrightarrow>
          bb ! nat i =
            (if \<exists>p. in_plane w h p \<and> marked w s p \<and> i = b + (bs * snd p + fst p)
             then FLT_MAX else bbuf0 ! nat i)"
  shows "hyst_inv bbuf0 b bs w h hi lo Pend (bb, s)"
  unfolding hyst_inv_def prod.case using assms by blast

lemma hyst_invD:
  assumes "hyst_inv bbuf0 b bs w h hi lo Pend (bb, s)"
  shows "length bb = length bbuf0"
    and "w * h \<le> int (length (map_s s))" and "w * h \<le> int (length (pos s))"
    and "- 1 \<le> index s"
    and "index s + 1 + int (unvisited (take (nat (w * h)) (map_s s))) \<le> w * h"
    and "\<And>p. in_plane w h p \<Longrightarrow> marked w s p \<Longrightarrow>
          interior w h p \<and> confirmed (plane_value bbuf0 b bs) w h hi lo p"
    and "\<And>p. p \<in> set (stack_entries s) \<Longrightarrow> in_plane w h p \<and> marked w s p"
    and "\<And>p q. in_plane w h p \<Longrightarrow> marked w s p \<Longrightarrow> adjacent8 p q \<Longrightarrow> in_plane w h q \<Longrightarrow>
            lo \<le> plane_value bbuf0 b bs q \<Longrightarrow>
            marked w s q \<or> p \<in> set (stack_entries s) \<or> (p, q) \<in> Pend"
    and "\<And>i. 0 \<le> i \<Longrightarrow> i < int (length bbuf0) \<Longrightarrow>
          bb ! nat i =
            (if \<exists>p. in_plane w h p \<and> marked w s p \<and> i = b + (bs * snd p + fst p)
             then FLT_MAX else bbuf0 ! nat i)"
  using assms unfolding hyst_inv_def prod.case by blast+

lemma hysteresis_mark_inv:
  assumes pre: "plane_in bbuf0 b bs w h"
    and inv: "hyst_inv bbuf0 b bs w h hi lo Pend (bb, s)"
    and p: "interior w h (x, y)" and um: "\<not> marked w s (x, y)"
    and c: "confirmed (plane_value bbuf0 b bs) w h hi lo (x, y)"
  shows "\<exists>bb' s'. hysteresis_mark b w bs x y (bb, s) = Some (bb', s') \<and>
           hyst_inv bbuf0 b bs w h hi lo Pend (bb', s') \<and>
           index s' = index s + 1 \<and> index s' < w * h \<and>
           (\<forall>q. in_plane w h q \<longrightarrow> marked w s' q = (q = (x, y) \<or> marked w s q)) \<and>
           map_s s ! nat (w * y + x) = 0 \<and> map_s s' ! nat (w * y + x) \<noteq> 0"
proof -
  note I = hyst_invD[OF inv]
  have ip: "in_plane w h (x, y)" by (rule interior_in_plane[OF p])
  define j where "j = w * y + x"
  define i where "i = b + (bs * y + x)"
  have j: "0 \<le> j" "j < w * h" using mask_index[OF ip] by (simp_all add: j_def)
  have jl: "nat j < length (map_s s)" using j I(2) by simp
  have i: "0 \<le> i" "i < int (length bb)" using cell_index[OF pre ip] I(1) by (simp_all add: i_def)
  have z: "map_s s ! nat j = 0" using um by (simp add: marked_def j_def)
  have "nat j < length (take (nat (w * h)) (map_s s))" "take (nat (w * h)) (map_s s) ! nat j = 0"
    using j jl z by simp_all
  then have U: "Suc (unvisited ((take (nat (w * h)) (map_s s))[nat j := UINT8_MAX]))
                 = unvisited (take (nat (w * h)) (map_s s))"
    by (intro unvisited_update) (simp_all add: UINT8_MAX_def)
  then have ix: "index s + 1 < w * h" using I(5) by linarith
  define s' where "s' = s\<lparr>map_s := (map_s s)[nat j := UINT8_MAX],
                          pos := (pos s)[nat (index s + 1) := (x, y)], index := index s + 1\<rparr>"
  define bb' where "bb' = bb[nat i := FLT_MAX]"
  have run: "hysteresis_mark b w bs x y (bb, s) = Some (bb', s')"
    unfolding hysteresis_mark_def push_def Let_def prod.case
    using i jl j I(3,4) ix
    by (simp add: wr_Some i_def[symmetric] j_def[symmetric] bb'_def s'_def)
  have mk: "marked w s' q = (q = (x, y) \<or> marked w s q)" if "in_plane w h q" for q
    unfolding s'_def j_def using marked_update[OF ip that I(2)] by simp
  have se: "stack_entries s' = stack_entries s @ [(x, y)]"
    unfolding s'_def using stack_entries_push[of s "(x, y)"] I(3,4) ix by simp
  have "hyst_inv bbuf0 b bs w h hi lo Pend (bb', s')"
  proof (rule hyst_invI)
    show "length bb' = length bbuf0" using I(1) by (simp add: bb'_def)
    show "w * h \<le> int (length (map_s s'))" using I(2) by (simp add: s'_def)
    show "w * h \<le> int (length (pos s'))" using I(3) by (simp add: s'_def)
    show "- 1 \<le> index s'" using I(4) by (simp add: s'_def)
    show "index s' + 1 + int (unvisited (take (nat (w * h)) (map_s s'))) \<le> w * h"
      using U I(5) by (simp add: s'_def take_update_swap)
  next
    fix q assume "in_plane w h q" "marked w s' q"
    then show "interior w h q \<and> confirmed (plane_value bbuf0 b bs) w h hi lo q"
      using mk[of q] I(6)[of q] p c by auto
  next
    fix q assume "q \<in> set (stack_entries s')"
    then show "in_plane w h q \<and> marked w s' q"
      using se I(7)[of q] mk[of q] ip by auto
  next
    fix q r assume a: "in_plane w h q" "marked w s' q" "adjacent8 q r" "in_plane w h r"
      "lo \<le> plane_value bbuf0 b bs r"
    show "marked w s' r \<or> q \<in> set (stack_entries s') \<or> (q, r) \<in> Pend"
    proof (cases "q = (x, y)")
      case True
      then show ?thesis using se by simp
    next
      case False
      then have "marked w s q" using mk[OF a(1)] a(2) by simp
      from I(8)[OF a(1) this a(3,4,5)] show ?thesis
        using mk[OF a(4)] se by auto
    qed
  next
    fix k assume k: "0 \<le> k" "k < int (length bbuf0)"
    show "bb' ! nat k =
            (if \<exists>q. in_plane w h q \<and> marked w s' q \<and> k = b + (bs * snd q + fst q)
             then FLT_MAX else bbuf0 ! nat k)"
    proof (cases "k = i")
      case True
      have "\<exists>q. in_plane w h q \<and> marked w s' q \<and> k = b + (bs * snd q + fst q)"
        using ip mk[OF ip] True by (intro exI[of _ "(x, y)"]) (simp add: i_def)
      then show ?thesis using True i by (simp add: bb'_def)
    next
      case False
      then have ne: "nat i \<noteq> nat k" using i k by simp
      have "(\<exists>q. in_plane w h q \<and> marked w s' q \<and> k = b + (bs * snd q + fst q))
          = (\<exists>q. in_plane w h q \<and> marked w s q \<and> k = b + (bs * snd q + fst q))"
        using mk False by (auto simp: i_def)
      then show ?thesis using I(9)[OF k] ne by (simp add: bb'_def)
    qed
  qed
  moreover have "index s' = index s + 1" by (simp add: s'_def)
  moreover have "index s' < w * h" using ix by (simp add: s'_def)
  moreover have "map_s s' ! nat j \<noteq> 0" using jl by (simp add: s'_def UINT8_MAX_def)
  ultimately show ?thesis using run mk z unfolding j_def by blast
qed


lemma hyst_inv_Pend:
  assumes "hyst_inv bbuf0 b bs w h hi lo Pend (bb, s)"
    and "\<And>p r. (p, r) \<in> Pend \<Longrightarrow> (p, r) \<notin> Pend' \<Longrightarrow> in_plane w h r \<Longrightarrow> adjacent8 p r \<Longrightarrow>
           lo \<le> plane_value bbuf0 b bs r \<Longrightarrow> marked w s r"
  shows "hyst_inv bbuf0 b bs w h hi lo Pend' (bb, s)"
proof -
  note I = hyst_invD[OF assms(1)]
  show ?thesis
  proof (rule hyst_invI)
    fix p q assume a: "in_plane w h p" "marked w s p" "adjacent8 p q" "in_plane w h q"
      "lo \<le> plane_value bbuf0 b bs q"
    from I(8)[OF a] assms(2)[of p q] a
    show "marked w s q \<or> p \<in> set (stack_entries s) \<or> (p, q) \<in> Pend'" by blast
  qed (use I in \<open>auto\<close>)
qed

lemma hysteresis_mark_log_inv:
  assumes pre: "plane_in bbuf0 b bs w h"
    and inv: "hyst_inv bbuf0 b bs w h hi lo Pend (bb, s)"
    and lg: "log_inv w h s lg"
    and p: "interior w h (x, y)" and um: "\<not> marked w s (x, y)"
    and c: "confirmed (plane_value bbuf0 b bs) w h hi lo (x, y)"
  shows "\<exists>bb' s' lg'. hysteresis_mark_log b w bs x y ((bb, s), lg) = Some ((bb', s'), lg') \<and>
           hyst_inv bbuf0 b bs w h hi lo Pend (bb', s') \<and> log_inv w h s' lg' \<and>
           (\<forall>q. in_plane w h q \<longrightarrow> marked w s' q = (q = (x, y) \<or> marked w s q))"
proof -
  from hysteresis_mark_inv[OF pre inv p um c] obtain bb' s' where
    run: "hysteresis_mark b w bs x y (bb, s) = Some (bb', s')"
    and inv': "hyst_inv bbuf0 b bs w h hi lo Pend (bb', s')"
    and ix: "index s' = index s + 1" "index s' < w * h"
    and mk: "\<And>q. in_plane w h q \<Longrightarrow> marked w s' q = (q = (x, y) \<or> marked w s q)"
    and z: "map_s s ! nat (w * y + x) = 0" and nz: "map_s s' ! nat (w * y + x) \<noteq> 0"
    by blast
  note I = hyst_invD[OF inv] and I' = hyst_invD[OF inv']
  have ip: "in_plane w h (x, y)" by (rule interior_in_plane[OF p])
  have j: "0 \<le> w * y + x" "w * y + x < w * h" using mask_index[OF ip] by simp_all
  have r1: "rd (map_s s) (w * y + x) = Some 0" using j I(2) z by (simp add: rd_def)
  have r2: "rd (map_s s') (w * y + x) = Some (map_s s' ! nat (w * y + x))"
    using j I'(2) by (simp add: rd_def)
  define e where "e = \<lparr>ev_pixel = (x, y), ev_mask_before = 0,
      ev_mask_at_push = map_s s' ! nat (w * y + x), ev_index = index s'\<rparr>"
  from run obtain m1 where
    w1: "wr bb (b + (bs * y + x)) FLT_MAX = Some bb'"
    and w2: "wr (map_s s) (w * y + x) UINT8_MAX = Some m1"
    and pu: "push (s\<lparr>map_s := m1\<rparr>) x y = Some s'"
    by (auto simp: hysteresis_mark_def bind_eq_Some_conv)
  from pu have m1: "map_s s' = m1"
    by (auto simp: push_def Let_def bind_eq_Some_conv split: if_splits)
  have r3: "rd m1 (w * y + x) = Some (map_s s' ! nat (w * y + x))"
    using r2 by (simp add: m1)
  have runl: "hysteresis_mark_log b w bs x y ((bb, s), lg) = Some ((bb', s'), lg @ [e])"
    unfolding hysteresis_mark_log_def prod.case by (simp add: r1 w1 w2 r3 pu e_def)
  have "log_inv w h s' (lg @ [e])"
    unfolding log_inv_def
  proof (rule conjI; (rule ballI)?)
    fix e' assume "e' \<in> set (lg @ [e])"
    then consider "e' \<in> set lg" | "e' = e" by auto
    then show "ev_mask_before e' = 0 \<and> ev_mask_at_push e' \<noteq> 0 \<and> 0 \<le> ev_index e' \<and>
        ev_index e' < w * h \<and> in_plane w h (ev_pixel e') \<and> marked w s' (ev_pixel e')"
    proof cases
      case 1
      then show ?thesis using lg mk[of "ev_pixel e'"] unfolding log_inv_def by auto
    next
      case 2
      then show ?thesis using nz ix I(4) ip mk[OF ip] by (simp add: e_def)
    qed
  next
    have "(x, y) \<notin> ev_pixel ` set lg" using lg um unfolding log_inv_def by auto
    then show "distinct (map ev_pixel (lg @ [e]))"
      using lg unfolding log_inv_def by (simp add: e_def)
  qed
  with runl inv' mk show ?thesis by blast
qed

lemma hysteresis_neighbour_log_inv:
  assumes pre: "hyst_pre bbuf0 b bs w h lo"
    and inv: "hyst_inv bbuf0 b bs w h hi lo Pend (bb, s)"
    and lg: "log_inv w h s lg"
    and cur: "in_plane w h cur" "marked w s cur"
    and q: "in_plane w h q" "q = cur \<or> adjacent8 cur q"
  shows "\<exists>bb' s' lg'. hysteresis_neighbour_log b w bs lo q ((bb, s), lg) = Some ((bb', s'), lg') \<and>
           hyst_inv bbuf0 b bs w h hi lo (Pend - {(cur, q)}) (bb', s') \<and> log_inv w h s' lg' \<and>
           (\<forall>r. in_plane w h r \<and> marked w s r \<longrightarrow> marked w s' r)"
proof -
  from pre have pl: "plane_in bbuf0 b bs w h"
    and border: "\<And>p. in_plane w h p \<Longrightarrow> \<not> interior w h p \<Longrightarrow> plane_value bbuf0 b bs p < lo"
    by (auto simp: hyst_pre_def)
  note I = hyst_invD[OF inv]
  obtain xx yy where qq: "q = (xx, yy)" by (cases q)
  have ci: "0 \<le> b + (bs * yy + xx)" "b + (bs * yy + xx) < int (length bbuf0)"
    using cell_index[OF pl q(1)] by (simp_all add: qq)
  have "(\<exists>p. in_plane w h p \<and> marked w s p \<and> b + (bs * yy + xx) = b + (bs * snd p + fst p))
        = marked w s q"
  proof
    assume "\<exists>p. in_plane w h p \<and> marked w s p \<and> b + (bs * yy + xx) = b + (bs * snd p + fst p)"
    then obtain p where p: "in_plane w h p" "marked w s p"
      "b + (bs * yy + xx) = b + (bs * snd p + fst p)" by blast
    have "q = p" by (rule cell_index_inj[OF pl q(1) p(1)]) (simp add: qq p(3))
    then show "marked w s q" using p(2) by simp
  next
    assume "marked w s q"
    then show "\<exists>p. in_plane w h p \<and> marked w s p \<and> b + (bs * yy + xx) = b + (bs * snd p + fst p)"
      using q(1) by (intro exI[of _ q]) (simp add: qq)
  qed
  then have val: "bb ! nat (b + (bs * yy + xx)) = (if marked w s q then FLT_MAX else plane_value bbuf0 b bs q)"
    using I(9)[OF ci] by (simp add: plane_value_def pixel_def qq)
  have r1: "rd bb (b + (bs * yy + xx)) = Some (bb ! nat (b + (bs * yy + xx)))"
    using ci I(1) by (simp add: rd_def)
  have j: "0 \<le> w * yy + xx" "w * yy + xx < w * h" using mask_index[OF q(1)] by (simp_all add: qq)
  have r2: "rd (map_s s) (w * yy + xx) = Some (map_s s ! nat (w * yy + xx))"
    using j I(2) by (simp add: rd_def)
  have mq: "marked w s q = (map_s s ! nat (w * yy + xx) \<noteq> 0)" by (simp add: marked_def qq)
  show ?thesis
  proof (cases "lo \<le> bb ! nat (b + (bs * yy + xx)) \<and> \<not> marked w s q")
    case True
    then have v: "lo \<le> plane_value bbuf0 b bs q" and um: "\<not> marked w s (xx, yy)"
      using val by (auto simp: qq)
    have int: "interior w h (xx, yy)" using border[OF q(1)] v by (auto simp: qq)
    have "q \<noteq> cur" using cur(2) True by auto
    then have adj: "adjacent8 cur q" using q(2) by simp
    have "confirmed (plane_value bbuf0 b bs) w h hi lo cur" using I(6)[OF cur] by simp
    then have c: "confirmed (plane_value bbuf0 b bs) w h hi lo (xx, yy)"
      using confirmed.chain[of "plane_value bbuf0 b bs" w h hi lo cur q] adj q(1) v by (simp add: qq)
    from hysteresis_mark_log_inv[OF pl inv lg int um c] obtain bb' s' lg' where
      run: "hysteresis_mark_log b w bs xx yy ((bb, s), lg) = Some ((bb', s'), lg')"
      and inv': "hyst_inv bbuf0 b bs w h hi lo Pend (bb', s')" and lg': "log_inv w h s' lg'"
      and mk: "\<And>r. in_plane w h r \<Longrightarrow> marked w s' r = (r = (xx, yy) \<or> marked w s r)"
      by blast
    have "hysteresis_neighbour_log b w bs lo q ((bb, s), lg) = Some ((bb', s'), lg')"
      unfolding hysteresis_neighbour_log_def qq prod.case using True run mq
      by (simp add: r1 r2)
    moreover have "hyst_inv bbuf0 b bs w h hi lo (Pend - {(cur, q)}) (bb', s')"
      by (rule hyst_inv_Pend[OF inv']) (use mk[OF q(1)] qq in auto)
    ultimately show ?thesis using lg' mk by blast
  next
    case False
    have "hysteresis_neighbour_log b w bs lo q ((bb, s), lg) = Some ((bb, s), lg)"
      unfolding hysteresis_neighbour_log_def qq prod.case using False mq
      by (simp add: r1 r2)
    moreover have "hyst_inv bbuf0 b bs w h hi lo (Pend - {(cur, q)}) (bb, s)"
    proof (rule hyst_inv_Pend[OF inv])
      fix p r assume "(p, r) \<in> Pend" "(p, r) \<notin> Pend - {(cur, q)}" "lo \<le> plane_value bbuf0 b bs r"
      then have "r = q" by auto
      then show "marked w s r" using False val \<open>lo \<le> plane_value bbuf0 b bs r\<close>
        by (cases "marked w s q") auto
    qed
    ultimately show ?thesis using lg by blast
  qed
qed

lemma neighbours9_set:
  "set [(xx, yy). yy \<leftarrow> [snd p - 1..snd p + 1], xx \<leftarrow> [fst p - 1..fst p + 1]]
     = {q. \<bar>fst p - fst q\<bar> \<le> 1 \<and> \<bar>snd p - snd q\<bar> \<le> 1}"
proof -
  have "(\<exists>yy\<in>{snd p - 1..snd p + 1}. (a, c) \<in> (\<lambda>xx. (xx, yy)) ` {fst p - 1..fst p + 1})
      = (\<bar>fst p - a\<bar> \<le> 1 \<and> \<bar>snd p - c\<bar> \<le> 1)" for a c
    by (auto simp: abs_le_iff image_iff)
  then show ?thesis by (auto simp del: abs_le_iff)
qed

lemma interior_neighbours:
  assumes "interior w h p" "\<bar>fst p - fst q\<bar> \<le> 1" "\<bar>snd p - snd q\<bar> \<le> 1"
  shows "in_plane w h q"
  using assms by (auto simp: interior_def in_plane_def)

lemma hysteresis_scan_log_inv:
  assumes pre: "hyst_pre bbuf0 b bs w h lo"
    and inv: "hyst_inv bbuf0 b bs w h hi lo ({cur} \<times> set ns) (bb, s)"
    and lg: "log_inv w h s lg"
    and cur: "in_plane w h cur" "marked w s cur"
    and ns: "\<forall>q\<in>set ns. in_plane w h q \<and> (q = cur \<or> adjacent8 cur q)"
  shows "\<exists>bb' s' lg'. for_loop ns (hysteresis_neighbour_log b w bs lo) ((bb, s), lg) = Some ((bb', s'), lg') \<and>
           hyst_inv bbuf0 b bs w h hi lo {} (bb', s') \<and> log_inv w h s' lg' \<and>
           (\<forall>r. in_plane w h r \<and> marked w s r \<longrightarrow> marked w s' r)"
  using inv lg cur(2) ns
proof (induction ns arbitrary: bb s lg)
  case Nil
  then show ?case by simp
next
  case (Cons q ns)
  have q: "in_plane w h q" "q = cur \<or> adjacent8 cur q" using Cons.prems(4) by auto
  from hysteresis_neighbour_log_inv[OF pre Cons.prems(1,2) cur(1) Cons.prems(3) q]
  obtain bb1 s1 lg1 where
    run: "hysteresis_neighbour_log b w bs lo q ((bb, s), lg) = Some ((bb1, s1), lg1)"
    and inv1: "hyst_inv bbuf0 b bs w h hi lo ({cur} \<times> set (q # ns) - {(cur, q)}) (bb1, s1)"
    and lg1: "log_inv w h s1 lg1"
    and mono: "\<And>r. in_plane w h r \<and> marked w s r \<Longrightarrow> marked w s1 r"
    by blast
  have inv1': "hyst_inv bbuf0 b bs w h hi lo ({cur} \<times> set ns) (bb1, s1)"
    by (rule hyst_inv_Pend[OF inv1]) auto
  have c1: "marked w s1 cur" using mono[of cur] cur(1) Cons.prems(3) by simp
  have ns': "\<forall>q\<in>set ns. in_plane w h q \<and> (q = cur \<or> adjacent8 cur q)"
    using Cons.prems(4) by simp
  from Cons.IH[OF inv1' lg1 c1 ns'] obtain bb' s' lg' where
    r2: "for_loop ns (hysteresis_neighbour_log b w bs lo) ((bb1, s1), lg1) = Some ((bb', s'), lg')"
    and i2: "hyst_inv bbuf0 b bs w h hi lo {} (bb', s')" and l2: "log_inv w h s' lg'"
    and m2: "\<And>r. in_plane w h r \<and> marked w s1 r \<Longrightarrow> marked w s' r"
    by blast
  have "for_loop (q # ns) (hysteresis_neighbour_log b w bs lo) ((bb, s), lg) = Some ((bb', s'), lg')"
    using run r2 by simp
  moreover have "\<forall>r. in_plane w h r \<and> marked w s r \<longrightarrow> marked w s' r"
    using mono m2 by blast
  ultimately show ?case using i2 l2 by blast
qed

lemma hysteresis_pop_inv:
  assumes inv: "hyst_inv bbuf0 b bs w h hi lo {} (bb, s)"
    and lg: "log_inv w h s lg"
    and ix: "- 1 < index s"
  shows "\<exists>p s1. pop s = Some (p, s1) \<and> map_s s1 = map_s s \<and>
           in_plane w h p \<and> marked w s p \<and> interior w h p \<and>
           hyst_inv bbuf0 b bs w h hi lo
             ({p} \<times> set [(xx, yy). yy \<leftarrow> [snd p - 1..snd p + 1], xx \<leftarrow> [fst p - 1..fst p + 1]]) (bb, s1) \<and>
           log_inv w h s1 lg"
proof -
  note I = hyst_invD[OF inv]
  have r: "0 \<le> index s" "index s < int (length (pos s))" using ix I(3,5) by linarith+
  define p where "p = pos s ! nat (index s)"
  define s1 where "s1 = s\<lparr>index := index s - 1\<rparr>"
  have run: "pop s = Some (p, s1)" unfolding pop_def using r by (simp add: rd_def p_def s1_def)
  have se: "stack_entries s = stack_entries s1 @ [p]"
    unfolding s1_def p_def by (rule stack_entries_pop[OF r])
  have mk: "marked w s1 = marked w s" by (simp add: marked_def fun_eq_iff s1_def)
  have ps: "in_plane w h p" "marked w s p" using I(7)[of p] se by auto
  have pi: "interior w h p" using I(6)[OF ps] by simp
  have "hyst_inv bbuf0 b bs w h hi lo
       ({p} \<times> set [(xx, yy). yy \<leftarrow> [snd p - 1..snd p + 1], xx \<leftarrow> [fst p - 1..fst p + 1]]) (bb, s1)"
  proof (rule hyst_invI)
    show "length bb = length bbuf0" by (rule I(1))
    show "w * h \<le> int (length (map_s s1))" using I(2) by (simp add: s1_def)
    show "w * h \<le> int (length (pos s1))" using I(3) by (simp add: s1_def)
    show "- 1 \<le> index s1" using r by (simp add: s1_def)
    show "index s1 + 1 + int (unvisited (take (nat (w * h)) (map_s s1))) \<le> w * h"
      using I(5) by (simp add: s1_def)
  next
    fix q assume "in_plane w h q" "marked w s1 q"
    then show "interior w h q \<and> confirmed (plane_value bbuf0 b bs) w h hi lo q"
      using I(6)[of q] mk by simp
  next
    fix q assume "q \<in> set (stack_entries s1)"
    then show "in_plane w h q \<and> marked w s1 q" using I(7)[of q] se mk by simp
  next
    fix q r assume a: "in_plane w h q" "marked w s1 q" "adjacent8 q r" "in_plane w h r"
      "lo \<le> plane_value bbuf0 b bs r"
    from I(8)[OF a(1) _ a(3,4,5)] a(2) mk
    have "marked w s r \<or> q \<in> set (stack_entries s)" by simp
    moreover have "(q, r) \<in> {p} \<times> set [(xx, yy). yy \<leftarrow> [snd p - 1..snd p + 1], xx \<leftarrow> [fst p - 1..fst p + 1]]"
      if "q = p"
      using a(3) that unfolding neighbours9_set by (simp add: adjacent8_def)
    ultimately show "marked w s1 r \<or> q \<in> set (stack_entries s1) \<or>
        (q, r) \<in> {p} \<times> set [(xx, yy). yy \<leftarrow> [snd p - 1..snd p + 1], xx \<leftarrow> [fst p - 1..fst p + 1]]"
      using se mk by auto
  next
    fix i assume "0 \<le> i" "i < int (length bbuf0)"
    then show "bb ! nat i =
            (if \<exists>p. in_plane w h p \<and> marked w s1 p \<and> i = b + (bs * snd p + fst p)
             then FLT_MAX else bbuf0 ! nat i)"
      using I(9)[of i] mk by simp
  qed
  moreover have "log_inv w h s1 lg" using lg mk by (simp add: log_inv_def)
  moreover have "map_s s1 = map_s s" by (simp add: s1_def)
  ultimately show ?thesis using run ps pi by blast
qed

lemma hysteresis_while_log_inv:
  assumes pre: "hyst_pre bbuf0 b bs w h lo"
    and inv: "hyst_inv bbuf0 b bs w h hi lo {} (bb, s)"
    and lg: "log_inv w h s lg"
  shows "\<exists>bb' s' lg'. hysteresis_while_log b w bs lo ((bb, s), lg) = Some ((bb', s'), lg') \<and>
           hyst_inv bbuf0 b bs w h hi lo {} (bb', s') \<and> log_inv w h s' lg' \<and> index s' = - 1 \<and>
           (\<forall>r. in_plane w h r \<and> marked w s r \<longrightarrow> marked w s' r)"
  using pre inv lg
proof (induction b w bs lo "((bb, s), lg)" arbitrary: bb s lg rule: hysteresis_while_log.induct)
  case (1 b w bs lo bb s lg)
  note pre = "1.prems"(1) and inv = "1.prems"(2) and lg = "1.prems"(3)
  show ?case
  proof (cases "- 1 < index s")
    case False
    then have "index s = - 1" using hyst_invD(4)[OF inv] by simp
    then show ?thesis using inv lg by simp
  next
    case True
    let ?ns = "\<lambda>p :: int \<times> int. [(xx, yy). yy \<leftarrow> [snd p - 1..snd p + 1], xx \<leftarrow> [fst p - 1..fst p + 1]]"
    from hysteresis_pop_inv[OF inv lg True] obtain p s1 where
      po: "pop s = Some (p, s1)" and ms: "map_s s1 = map_s s"
      and p: "in_plane w h p" "marked w s p" "interior w h p"
      and inv1: "hyst_inv bbuf0 b bs w h hi lo ({p} \<times> set (?ns p)) (bb, s1)"
      and lg1: "log_inv w h s1 lg"
      by blast
    have mk1: "marked w s1 = marked w s" using ms by (simp add: marked_def fun_eq_iff)
    have ns: "\<forall>q\<in>set (?ns p). in_plane w h q \<and> (q = p \<or> adjacent8 p q)"
      unfolding neighbours9_set using interior_neighbours[OF p(3)]
      by (auto simp: adjacent8_def)
    from hysteresis_scan_log_inv[OF pre inv1 lg1 p(1) _ ns] p(2) mk1
    obtain bb2 s2 lg2 where
      sc: "for_loop (?ns p) (hysteresis_neighbour_log b w bs lo) ((bb, s1), lg) = Some ((bb2, s2), lg2)"
      and inv2: "hyst_inv bbuf0 b bs w h hi lo {} (bb2, s2)" and lg2: "log_inv w h s2 lg2"
      and m2: "\<And>r. in_plane w h r \<and> marked w s1 r \<Longrightarrow> marked w s2 r"
      by auto
    from "1.hyps"[OF True po refl sc pre inv2 lg2] obtain bb' s' lg' where
      run: "hysteresis_while_log b w bs lo ((bb2, s2), lg2) = Some ((bb', s'), lg')"
      and inv': "hyst_inv bbuf0 b bs w h hi lo {} (bb', s')" and lg': "log_inv w h s' lg'"
      and ix: "index s' = - 1"
      and m3: "\<And>r. in_plane w h r \<and> marked w s2 r \<Longrightarrow> marked w s' r"
      by blast
    have "hysteresis_while_log b w bs lo ((bb, s), lg) = Some ((bb', s'), lg')"
      using True po sc run by simp
    moreover have "\<forall>r. in_plane w h r \<and> marked w s r \<longrightarrow> marked w s' r"
      using m2 m3 mk1 by auto
    ultimately show ?thesis using inv' lg' ix by blast
  qed
qed

lemma hysteresis_pixel_log_inv:
  assumes pre: "hyst_pre bbuf0 b bs w h lo"
    and inv: "hyst_inv bbuf0 b bs w h hi lo {} (bb, s)"
    and lg: "log_inv w h s lg"
    and ix: "index s = - 1"
    and p: "interior w h p"
  shows "\<exists>bb' s' lg'. hysteresis_pixel_log b w bs hi lo p ((bb, s), lg) = Some ((bb', s'), lg') \<and>
           hyst_inv bbuf0 b bs w h hi lo {} (bb', s') \<and> log_inv w h s' lg' \<and> index s' = - 1 \<and>
           (\<forall>r. in_plane w h r \<and> marked w s r \<longrightarrow> marked w s' r) \<and>
           (hi \<le> plane_value bbuf0 b bs p \<longrightarrow> marked w s' p)"
proof -
  from pre have pl: "plane_in bbuf0 b bs w h" by (simp add: hyst_pre_def)
  note I = hyst_invD[OF inv]
  have ip: "in_plane w h p" by (rule interior_in_plane[OF p])
  obtain x y where pp: "p = (x, y)" by (cases p)
  have ci: "0 \<le> b + (bs * y + x)" "b + (bs * y + x) < int (length bbuf0)"
    using cell_index[OF pl ip] by (simp_all add: pp)
  have "(\<exists>q. in_plane w h q \<and> marked w s q \<and> b + (bs * y + x) = b + (bs * snd q + fst q))
        = marked w s p"
  proof
    assume "\<exists>q. in_plane w h q \<and> marked w s q \<and> b + (bs * y + x) = b + (bs * snd q + fst q)"
    then obtain q where q: "in_plane w h q" "marked w s q"
      "b + (bs * y + x) = b + (bs * snd q + fst q)" by blast
    have "p = q" by (rule cell_index_inj[OF pl ip q(1)]) (simp add: pp q(3))
    then show "marked w s p" using q(2) by simp
  next
    assume "marked w s p"
    then show "\<exists>q. in_plane w h q \<and> marked w s q \<and> b + (bs * y + x) = b + (bs * snd q + fst q)"
      using ip by (intro exI[of _ p]) (simp add: pp)
  qed
  then have val: "bb ! nat (b + (bs * y + x)) = (if marked w s p then FLT_MAX else plane_value bbuf0 b bs p)"
    using I(9)[OF ci] by (simp add: plane_value_def pixel_def pp)
  have r1: "rd bb (b + (bs * y + x)) = Some (bb ! nat (b + (bs * y + x)))"
    using ci I(1) by (simp add: rd_def)
  have j: "0 \<le> w * y + x" "w * y + x < w * h" using mask_index[OF ip] by (simp_all add: pp)
  have r2: "rd (map_s s) (w * y + x) = Some (map_s s ! nat (w * y + x))"
    using j I(2) by (simp add: rd_def)
  have mq: "marked w s p = (map_s s ! nat (w * y + x) \<noteq> 0)" by (simp add: marked_def pp)
  show ?thesis
  proof (cases "\<not> bb ! nat (b + (bs * y + x)) < hi \<and> \<not> marked w s p")
    case True
    then have v: "hi \<le> plane_value bbuf0 b bs p" and um: "\<not> marked w s (x, y)"
      using val by (auto simp: pp)
    have c: "confirmed (plane_value bbuf0 b bs) w h hi lo (x, y)"
      using confirmed.seed[of w h p hi "plane_value bbuf0 b bs" lo] p v by (simp add: pp)
    from hysteresis_mark_log_inv[OF pl inv lg p[unfolded pp] um c] obtain bb1 s1 lg1 where
      run: "hysteresis_mark_log b w bs x y ((bb, s), lg) = Some ((bb1, s1), lg1)"
      and inv1: "hyst_inv bbuf0 b bs w h hi lo {} (bb1, s1)" and lg1: "log_inv w h s1 lg1"
      and mk: "\<And>r. in_plane w h r \<Longrightarrow> marked w s1 r = (r = (x, y) \<or> marked w s r)"
      by blast
    from hysteresis_while_log_inv[OF pre inv1 lg1] obtain bb' s' lg' where
      wh: "hysteresis_while_log b w bs lo ((bb1, s1), lg1) = Some ((bb', s'), lg')"
      and inv': "hyst_inv bbuf0 b bs w h hi lo {} (bb', s')" and lg': "log_inv w h s' lg'"
      and ix': "index s' = - 1"
      and m2: "\<And>r. in_plane w h r \<and> marked w s1 r \<Longrightarrow> marked w s' r"
      by blast
    have "hysteresis_pixel_log b w bs hi lo p ((bb, s), lg) = Some ((bb', s'), lg')"
      unfolding hysteresis_pixel_log_def pp prod.case using True run wh mq
      by (simp add: r1 r2 pp)
    moreover have "\<forall>r. in_plane w h r \<and> marked w s r \<longrightarrow> marked w s' r"
      using mk m2 by blast
    moreover have "marked w s' p" using mk[OF ip] m2[of p] ip by (simp add: pp)
    ultimately show ?thesis using inv' lg' ix' by blast
  next
    case False
    have "hysteresis_pixel_log b w bs hi lo p ((bb, s), lg) = Some ((bb, s), lg)"
      unfolding hysteresis_pixel_log_def pp prod.case using False mq
      by (auto simp: r1 r2 pp)
    moreover have "hi \<le> plane_value bbuf0 b bs p \<longrightarrow> marked w s p"
      using False val by (cases "marked w s p") auto
    ultimately show ?thesis using inv lg ix by blast
  qed
qed

lemma marked_cell_iff:
  assumes pl: "plane_in bbuf0 b bs w h" and ip: "in_plane w h p"
  shows "(\<exists>q. in_plane w h q \<and> marked w s q \<and> b + (bs * snd p + fst p) = b + (bs * snd q + fst q))
        = marked w s p"
proof
  assume "\<exists>q. in_plane w h q \<and> marked w s q \<and> b + (bs * snd p + fst p) = b + (bs * snd q + fst q)"
  then obtain q where q: "in_plane w h q" "marked w s q"
    "b + (bs * snd p + fst p) = b + (bs * snd q + fst q)" by blast
  have "p = q" by (rule cell_index_inj[OF pl ip q(1) q(3)])
  then show "marked w s p" using q(2) by simp
next
  assume "marked w s p"
  then show "\<exists>q. in_plane w h q \<and> marked w s q \<and> b + (bs * snd p + fst p) = b + (bs * snd q + fst q)"
    using ip by (intro exI[of _ p]) simp
qed

lemma interior_list_set:
  "set [(x, y). y \<leftarrow> [1..h - 2], x \<leftarrow> [1..w - 2]] = {p. interior w h p}"
  by (auto simp: interior_def image_iff)

lemma unvisited_zeros:
  assumes "\<forall>i<length m. m ! i = 0"
  shows "unvisited m = length m"
proof -
  have "\<forall>x\<in>set m. x = 0" using assms by (auto simp: in_set_conv_nth)
  then show ?thesis unfolding unvisited_def by (simp add: filter_id_conv[THEN iffD2])
qed

lemma hysteresis_log_correct:
  assumes pre: "hyst_pre bbuf0 b bs w h lo"
    and ml: "w * h \<le> int (length (map_s stack0))" and pl: "w * h \<le> int (length (pos stack0))"
  shows "\<exists>bb' s' lg. hysteresis_log bbuf0 b stack0 w h bs hi lo = Some ((bb', s'), lg) \<and>
     length bb' = length bbuf0 \<and> index s' = - 1 \<and>
     (\<forall>p. in_plane w h p \<longrightarrow>
        plane_value bb' b bs p =
          (if confirmed (plane_value bbuf0 b bs) w h hi lo p then FLT_MAX
           else plane_value bbuf0 b bs p)) \<and>
     (\<forall>p. in_plane w h p \<longrightarrow> marked w s' p = confirmed (plane_value bbuf0 b bs) w h hi lo p) \<and>
     log_inv w h s' lg"
proof -
  let ?V = "plane_value bbuf0 b bs"
  from pre have pln: "plane_in bbuf0 b bs w h" by (simp add: hyst_pre_def)
  then have wh: "0 < w" "0 < h" by (auto simp: plane_in_def)
  then have wh0: "0 \<le> w * h" by simp
  \<comment> \<open>the \<open>memset\<close>\<close>
  have "\<exists>m. for_loop [0..w * h - 1] (\<lambda>k m. wr m (0 + k) 0) (map_s stack0) = Some m \<and>
          length m = length (map_s stack0) \<and>
          (\<forall>i. 0 \<le> i \<longrightarrow> m ! nat i = (if 0 + 0 \<le> i \<and> i \<le> 0 + (w * h - 1) then 0 else map_s stack0 ! nat i))"
    by (rule for_loop_write_row) (use ml in auto)
  then obtain m where fm: "fill_n (map_s stack0) 0 (w * h) 0 = Some m"
    and lm: "length m = length (map_s stack0)"
    and zm: "\<And>i. 0 \<le> i \<Longrightarrow> i < w * h \<Longrightarrow> m ! nat i = 0"
    unfolding fill_n_def by auto
  define s0 where "s0 = stack0\<lparr>map_s := m, index := - 1\<rparr>"
  have um: "\<not> marked w s0 p" if "in_plane w h p" for p
    using zm[OF mask_index[OF that]] by (simp add: marked_def s0_def)
  have "\<forall>i<length (take (nat (w * h)) m). take (nat (w * h)) m ! i = 0"
    using zm[of "int i" for i] by auto
  then have "unvisited (take (nat (w * h)) m) = length (take (nat (w * h)) m)"
    by (rule unvisited_zeros)
  then have u0: "int (unvisited (take (nat (w * h)) m)) = w * h"
    using ml lm wh0 by simp
  have inv0: "hyst_inv bbuf0 b bs w h hi lo {} (bbuf0, s0)"
  proof (rule hyst_invI)
    show "index s0 + 1 + int (unvisited (take (nat (w * h)) (map_s s0))) \<le> w * h"
      using u0 by (simp add: s0_def)
  qed (use um ml pl lm in \<open>auto simp: s0_def stack_entries_def\<close>)
  have lg0: "log_inv w h s0 []" by (simp add: log_inv_def)
  \<comment> \<open>the two outer loops\<close>
  let ?P = "\<lambda>pre (st :: (real list \<times> Stack) \<times> push_event list).
     (case st of ((bb, s), lg) \<Rightarrow>
        hyst_inv bbuf0 b bs w h hi lo {} (bb, s) \<and> log_inv w h s lg \<and> index s = - 1 \<and>
        (\<forall>p\<in>set pre. hi \<le> ?V p \<longrightarrow> marked w s p))"
  let ?ps = "[(x, y). y \<leftarrow> [1..h - 2], x \<leftarrow> [1..w - 2]]"
  have "\<exists>st'. for_loop ?ps (hysteresis_pixel_log b w bs hi lo) ((bbuf0, s0), []) = Some st' \<and> ?P ?ps st'"
  proof (rule for_loop_total[where P = ?P])
    show "?P [] ((bbuf0, s0), [])" using inv0 lg0 by (simp add: s0_def)
  next
    fix pre k post and st :: "(real list \<times> Stack) \<times> push_event list"
    assume dec: "?ps = pre @ k # post" and P: "?P pre st"
    obtain bb s lg where st: "st = ((bb, s), lg)" by (cases st) auto
    from P have inv: "hyst_inv bbuf0 b bs w h hi lo {} (bb, s)" and lg: "log_inv w h s lg"
      and ix: "index s = - 1" and seeds: "\<And>p. p \<in> set pre \<Longrightarrow> hi \<le> ?V p \<Longrightarrow> marked w s p"
      unfolding st by auto
    have "set ?ps = set (pre @ k # post)" using dec by simp
    then have sub: "set pre \<subseteq> {p. interior w h p}" and k: "interior w h k"
      unfolding interior_list_set by auto
    from hysteresis_pixel_log_inv[OF pre inv lg ix k] obtain bb' s' lg' where
      run: "hysteresis_pixel_log b w bs hi lo k ((bb, s), lg) = Some ((bb', s'), lg')"
      and inv': "hyst_inv bbuf0 b bs w h hi lo {} (bb', s')" and lg': "log_inv w h s' lg'"
      and ix': "index s' = - 1"
      and mono: "\<And>r. in_plane w h r \<and> marked w s r \<Longrightarrow> marked w s' r"
      and sk: "hi \<le> ?V k \<longrightarrow> marked w s' k"
      by blast
    have "marked w s' p" if "p \<in> set (pre @ [k])" "hi \<le> ?V p" for p
    proof (cases "p = k")
      case True
      then show ?thesis using sk that by simp
    next
      case False
      then have "p \<in> set pre" using that by simp
      then show ?thesis using seeds[of p] mono[of p] sub interior_in_plane[of w h p] that by auto
    qed
    then have "?P (pre @ [k]) ((bb', s'), lg')" using inv' lg' ix' by simp
    with run show "\<exists>s'. hysteresis_pixel_log b w bs hi lo k st = Some s' \<and> ?P (pre @ [k]) s'"
      unfolding st by blast
  qed
  then obtain bb' s' lg where
    loop: "for_loop ?ps (hysteresis_pixel_log b w bs hi lo) ((bbuf0, s0), []) = Some ((bb', s'), lg)"
    and inv: "hyst_inv bbuf0 b bs w h hi lo {} (bb', s')" and lg: "log_inv w h s' lg"
    and ix: "index s' = - 1"
    and seeds: "\<And>p. interior w h p \<Longrightarrow> hi \<le> ?V p \<Longrightarrow> marked w s' p"
    unfolding interior_list_set by auto
  note I = hyst_invD[OF inv]
  have run: "hysteresis_log bbuf0 b stack0 w h bs hi lo = Some ((bb', s'), lg)"
    unfolding hysteresis_log_def using fm loop by (simp add: s0_def)
  have empty: "stack_entries s' = []" using ix by (simp add: stack_entries_def)
  have cm: "in_plane w h p \<and> marked w s' p" if "confirmed ?V w h hi lo p" for p
    using that
  proof (induction rule: confirmed.induct)
    case (seed p)
    then show ?case using seeds[of p] interior_in_plane[of w h p] by simp
  next
    case (chain p q)
    from I(8)[of p q] chain empty show ?case by simp
  qed
  have mc: "marked w s' p = confirmed ?V w h hi lo p" if "in_plane w h p" for p
    using cm[of p] I(6)[of p] that by blast
  have "plane_value bb' b bs p = (if confirmed ?V w h hi lo p then FLT_MAX else ?V p)"
    if ip: "in_plane w h p" for p
  proof -
    have ci: "0 \<le> b + (bs * snd p + fst p)" "b + (bs * snd p + fst p) < int (length bbuf0)"
      by (rule cell_index[OF pln ip])+
    have "plane_value bb' b bs p = bb' ! nat (b + (bs * snd p + fst p))"
      by (simp add: plane_value_def pixel_def split_beta)
    also have "\<dots> = (if marked w s' p then FLT_MAX else bbuf0 ! nat (b + (bs * snd p + fst p)))"
      unfolding I(9)[OF ci] marked_cell_iff[OF pln ip] ..
    also have "\<dots> = (if confirmed ?V w h hi lo p then FLT_MAX else ?V p)"
      unfolding mc[OF ip] by (simp add: plane_value_def pixel_def split_beta)
    finally show ?thesis .
  qed
  with run I(1) ix mc lg show ?thesis by blast
qed

section \<open>What the hysteresis pass computes\<close>

lemma confirmed_mono:
  assumes "confirmed V w h hi' lo' p" and "hi \<le> hi'" and "lo \<le> lo'"
  shows "confirmed V w h hi lo p"
  using assms(1)
proof (induction rule: confirmed.induct)
  case (seed p)
  then show ?case using assms(2) by (intro confirmed.seed) auto
next
  case (chain p q)
  then show ?case using assms(3) by (intro confirmed.chain[of V w h hi lo p q]) auto
qed

lemma hysteresis_iff:
  assumes pl: "plane_in bbuf b bs w h"
    and ml: "w * h \<le> int (length (map_s stack))" and psl: "w * h \<le> int (length (pos stack))"
    and border: "\<forall>p. in_plane w h p \<and> \<not> interior w h p \<longrightarrow> plane_value bbuf b bs p = - FLT_MAX"
    and lo: "- FLT_MAX < lo" and hi: "hi \<le> FLT_MAX"
  shows "\<exists>bb' s'. hysteresis bbuf b stack w h bs hi lo = Some (bb', s') \<and>
     (\<forall>p. in_plane w h p \<longrightarrow>
        (plane_value bb' b bs p = FLT_MAX) = confirmed (plane_value bbuf b bs) w h hi lo p \<and>
        (\<not> confirmed (plane_value bbuf b bs) w h hi lo p \<longrightarrow>
           plane_value bb' b bs p = plane_value bbuf b bs p))"
proof -
  let ?V = "plane_value bbuf b bs"
  have pre: "hyst_pre bbuf b bs w h lo"
    unfolding hyst_pre_def using pl border lo by auto
  from hysteresis_log_correct[OF pre ml psl, of hi] obtain bb' s' lg where
    run: "hysteresis_log bbuf b stack w h bs hi lo = Some ((bb', s'), lg)"
    and val: "\<And>p. in_plane w h p \<Longrightarrow>
        plane_value bb' b bs p = (if confirmed ?V w h hi lo p then FLT_MAX else ?V p)"
    by blast
  have "hysteresis bbuf b stack w h bs hi lo = Some (bb', s')"
    using hysteresis_log_erase[of bbuf b stack w h bs hi lo] run by simp
  moreover have "(plane_value bb' b bs p = FLT_MAX) = confirmed ?V w h hi lo p \<and>
        (\<not> confirmed ?V w h hi lo p \<longrightarrow> plane_value bb' b bs p = ?V p)"
    if ip: "in_plane w h p" for p
  proof (cases "confirmed ?V w h hi lo p")
    case True
    then show ?thesis using val[OF ip] by simp
  next
    case False
    have "?V p \<noteq> FLT_MAX"
    proof (cases "interior w h p")
      case True
      then have "\<not> hi \<le> ?V p" using False confirmed.seed[of w h p hi ?V lo] by auto
      then show ?thesis using hi by auto
    next
      case False
      then have "?V p = - FLT_MAX" using border ip by blast
      then show ?thesis using FLT_MAX_pos by simp
    qed
    then show ?thesis using False val[OF ip] by simp
  qed
  ultimately show ?thesis by blast
qed

lemma ex_plane_in: "plane_in ex_plane 0 4 4 3"
  by (simp add: plane_in_def ex_plane_def)

lemma ex_stack_size: "4 * 3 \<le> int (length (map_s ex_stack))" "4 * 3 \<le> int (length (pos ex_stack))"
  by (simp_all add: ex_stack_def)

lemma ex_border:
  "\<forall>p. in_plane 4 3 p \<and> \<not> interior 4 3 p \<longrightarrow> plane_value ex_plane 0 4 p = - FLT_MAX"
proof (intro allI impI)
  fix p :: "int \<times> int"
  assume a: "in_plane 4 3 p \<and> \<not> interior 4 3 p"
  obtain x y where p: "p = (x, y)" by (cases p)
  from a have "x = 0 \<or> x = 1 \<or> x = 2 \<or> x = 3" "y = 0 \<or> y = 1 \<or> y = 2"
    unfolding p in_plane_def by auto
  moreover from a have "\<not> (1 \<le> x \<and> x \<le> 2 \<and> y = 1)"
    unfolding p interior_def by auto
  ultimately show "plane_value ex_plane 0 4 p = - FLT_MAX"
    unfolding p by (auto simp: plane_value_def pixel_def ex_plane_def)
qed

lemma ex_thresholds: "- FLT_MAX < 1" "(8::real) \<le> FLT_MAX"
  by (simp_all add: FLT_MAX_def)

lemma ex_confirmed: "confirmed (plane_value ex_plane 0 4) 4 3 8 1 (2, 1)"
proof -
  have "confirmed (plane_value ex_plane 0 4) 4 3 8 1 (1, 1)"
    by (rule confirmed.seed) (simp_all add: interior_def plane_value_def pixel_def ex_plane_def)
  then show ?thesis
    by (rule confirmed.chain)
      (simp_all add: adjacent8_def in_plane_def plane_value_def pixel_def ex_plane_def)
qed

lemma confirmed_interior:
  assumes "confirmed V w h hi lo p"
    and "\<forall>p. in_plane w h p \<and> \<not> interior w h p \<longrightarrow> V p < lo"
  shows "interior w h p"
  using assms(1)
proof (induction rule: confirmed.induct)
  case (seed p)
  then show ?case by simp
next
  case (chain p q)
  show ?case
  proof (rule ccontr)
    assume "\<not> interior w h q"
    with assms(2) chain(3) have "V q < lo" by blast
    with chain(4) show False by simp
  qed
qed

lemma ex_not_confirmed: "\<not> confirmed (plane_value ex_plane 0 4) 4 3 8 1 (0, 0)"
proof
  assume "confirmed (plane_value ex_plane 0 4) 4 3 8 1 (0, 0)"
  then have "interior 4 3 (0, 0)"
    by (rule confirmed_interior) (use ex_border ex_thresholds in auto)
  then show False by (simp add: interior_def)
qed

text \<open>
  C1. On a plane as non-maximum suppression leaves it (the first and last row and
  column hold \<open>- FLT_MAX\<close>), inside its buffer, with a visit mask and a stack of at least
  \<open>w * h\<close> entries and with thresholds that are finite floats above the suppressed
  sentinel (\<open>- FLT_MAX < t_l\<close>, \<open>t_h \<le> FLT_MAX\<close>), \<open>hysteresis\<close> returns, and a pixel of the
  plane then holds \<open>FLT_MAX\<close> if and only if it is confirmed: an 8-connected chain of
  pixels with a value of at least \<open>t_l\<close> leads to it from an interior pixel with a
  value of at least \<open>t_h\<close>. Every other pixel holds the value it had before. The order
  \<open>t_l < t_h\<close> of the thresholds is not needed. The bound on \<open>t_l\<close> is: with a low
  threshold of \<open>- FLT_MAX\<close> or less, which \<open>tcannyCreate\<close> accepts, the pixels of the border
  pass the test of line 760 and the pass leaves the plane, as the
  example after the theorem shows.
\<close>

theorem hysteresis_confirms_reachable:
  assumes "plane_in bbuf b bs w h"
    and "w * h \<le> int (length (map_s stack))" and "w * h \<le> int (length (pos stack))"
    and "\<forall>p. in_plane w h p \<and> \<not> interior w h p \<longrightarrow> plane_value bbuf b bs p = - FLT_MAX"
    and "- FLT_MAX < lo" and "hi \<le> FLT_MAX"
  shows "\<exists>bb' s'. hysteresis bbuf b stack w h bs hi lo = Some (bb', s') \<and>
     (\<forall>p. in_plane w h p \<longrightarrow>
        (plane_value bb' b bs p = FLT_MAX) = confirmed (plane_value bbuf b bs) w h hi lo p \<and>
        (\<not> confirmed (plane_value bbuf b bs) w h hi lo p \<longrightarrow>
           plane_value bb' b bs p = plane_value bbuf b bs p))"
  by (rule hysteresis_iff[OF assms])

theorem hysteresis_confirms_reachable_witness:
  "\<exists>bb' s'. hysteresis ex_plane 0 ex_stack 4 3 4 8 1 = Some (bb', s') \<and>
     confirmed (plane_value ex_plane 0 4) 4 3 8 1 (2, 1) \<and> plane_value bb' 0 4 (2, 1) = FLT_MAX \<and>
     \<not> confirmed (plane_value ex_plane 0 4) 4 3 8 1 (0, 0) \<and> plane_value bb' 0 4 (0, 0) = - FLT_MAX"
proof -
  from hysteresis_confirms_reachable[OF ex_plane_in ex_stack_size ex_border ex_thresholds]
  obtain bb' s' where run: "hysteresis ex_plane 0 ex_stack 4 3 4 8 1 = Some (bb', s')"
    and r: "\<And>p. in_plane 4 3 p \<Longrightarrow>
        (plane_value bb' 0 4 p = FLT_MAX) = confirmed (plane_value ex_plane 0 4) 4 3 8 1 p \<and>
        (\<not> confirmed (plane_value ex_plane 0 4) 4 3 8 1 p \<longrightarrow>
           plane_value bb' 0 4 p = plane_value ex_plane 0 4 p)"
    by blast
  have "plane_value bb' 0 4 (2, 1) = FLT_MAX"
    using r[of "(2, 1)"] ex_confirmed by (simp add: in_plane_def)
  moreover have "plane_value bb' 0 4 (0, 0) = - FLT_MAX"
    using r[of "(0, 0)"] ex_not_confirmed
    by (simp add: in_plane_def plane_value_def pixel_def ex_plane_def)
  ultimately show ?thesis using run ex_confirmed ex_not_confirmed by blast
qed

text \<open>
  The low threshold \<open>- FLT_MAX\<close> passes \<open>tcannyCreate\<close>, whose only test of it is
  \<open>t_l < t_h\<close> and which leaves it as it is for a clip of 8 bits. The border of the plane
  \<open>ex_plane\<close> then is not below the threshold: the pixel \<open>(0, 0)\<close> is confirmed and pushed,
  and when it is popped the pass reads the pixel \<open>(- 1, - 1)\<close>, outside the buffer.
\<close>

theorem hysteresis_low_threshold_counterexample:
  "(\<exists>d. tcannyCreate (\<lambda>n. True) ex_data
          (ex_map\<lparr>in_t_h := Some 8, in_t_l := Some (- FLT_MAX)\<rparr>) = Some (Inr d) \<and>
        mode d = 0 \<and> t_h d = 8 \<and> t_l d = - FLT_MAX) \<and>
   (- FLT_MAX :: real) < 8 \<and>
   hysteresis ex_plane 0 ex_stack 4 3 4 8 (- FLT_MAX) = None"
proof -
  from ex_weights obtain ws where ws: "gaussianWeights (\<lambda>n. True) (1 / 2) = Some (Some ws, 2)" ..
  have lt: "- FLT_MAX < (8::real)" by (simp add: FLT_MAX_def)
  then have "\<exists>d. tcannyCreate (\<lambda>n. True) ex_data
          (ex_map\<lparr>in_t_h := Some 8, in_t_l := Some (- FLT_MAX)\<rparr>) = Some (Inr d) \<and>
        mode d = 0 \<and> t_h d = 8 \<and> t_l d = - FLT_MAX"
    by (simp add: tcannyCreate_def ex_map_def ex_format_def isConstantFormat_def int64ToIntS_def
          rd_def wr_def scale_def ws Let_def)
  moreover have "hysteresis ex_plane 0 ex_stack 4 3 4 8 (- FLT_MAX) = None" by code_simp
  ultimately show ?thesis using lt by simp
qed

text \<open>
  C7. For a fixed suppressed map, under the conditions of C1, the pixels that hold
  \<open>FLT_MAX\<close> after a pass with the thresholds \<open>t_h'\<close> and \<open>t_l'\<close> also hold it after a pass
  with thresholds \<open>t_h \<le> t_h'\<close> and \<open>t_l \<le> t_l'\<close>: raising either threshold, the other one
  fixed, never adds a confirmed pixel. The conditions of C1 bound the thresholds
  (\<open>- FLT_MAX < t_l\<close>, \<open>t_h' \<le> FLT_MAX\<close>); with \<open>t_l = - FLT_MAX\<close> the pass with the lower
  threshold leaves the plane, as the example after the theorem shows.
\<close>

theorem hysteresis_antitone:
  assumes "plane_in bbuf b bs w h"
    and "w * h \<le> int (length (map_s stack))" and "w * h \<le> int (length (pos stack))"
    and "\<forall>p. in_plane w h p \<and> \<not> interior w h p \<longrightarrow> plane_value bbuf b bs p = - FLT_MAX"
    and "- FLT_MAX < lo" and "lo \<le> lo'" and "hi \<le> hi'" and "hi' \<le> FLT_MAX"
  shows "\<exists>bb1 s1 bb2 s2.
     hysteresis bbuf b stack w h bs hi lo = Some (bb1, s1) \<and>
     hysteresis bbuf b stack w h bs hi' lo' = Some (bb2, s2) \<and>
     (\<forall>p. in_plane w h p \<and> plane_value bb2 b bs p = FLT_MAX \<longrightarrow> plane_value bb1 b bs p = FLT_MAX)"
proof -
  let ?V = "plane_value bbuf b bs"
  have lo': "- FLT_MAX < lo'" and hi: "hi \<le> FLT_MAX" using assms(5-8) by auto
  from hysteresis_iff[OF assms(1-4) assms(5) hi] obtain bb1 s1 where
    r1: "hysteresis bbuf b stack w h bs hi lo = Some (bb1, s1)"
    and c1: "\<And>p. in_plane w h p \<Longrightarrow> (plane_value bb1 b bs p = FLT_MAX) = confirmed ?V w h hi lo p"
    by blast
  from hysteresis_iff[OF assms(1-4) lo' assms(8)] obtain bb2 s2 where
    r2: "hysteresis bbuf b stack w h bs hi' lo' = Some (bb2, s2)"
    and c2: "\<And>p. in_plane w h p \<Longrightarrow> (plane_value bb2 b bs p = FLT_MAX) = confirmed ?V w h hi' lo' p"
    by blast
  have "plane_value bb1 b bs p = FLT_MAX" if "in_plane w h p \<and> plane_value bb2 b bs p = FLT_MAX" for p
    using that c1[of p] c2[of p] confirmed_mono[OF _ assms(7,6), of ?V w h p] by auto
  with r1 r2 show ?thesis by blast
qed

theorem hysteresis_antitone_witness:
  "\<exists>bb1 s1 bb2 s2.
     hysteresis ex_plane 0 ex_stack 4 3 4 8 1 = Some (bb1, s1) \<and>
     hysteresis ex_plane 0 ex_stack 4 3 4 8 2 = Some (bb2, s2) \<and>
     plane_value bb2 0 4 (2, 1) = FLT_MAX \<and> plane_value bb1 0 4 (2, 1) = FLT_MAX"
proof -
  have t: "(1::real) \<le> 2" "(8::real) \<le> 8" by simp_all
  from hysteresis_antitone[OF ex_plane_in ex_stack_size ex_border ex_thresholds(1) t ex_thresholds(2)]
  obtain bb1 s1 bb2 s2 where
    r1: "hysteresis ex_plane 0 ex_stack 4 3 4 8 1 = Some (bb1, s1)"
    and r2: "hysteresis ex_plane 0 ex_stack 4 3 4 8 2 = Some (bb2, s2)"
    and sub: "\<And>p. in_plane 4 3 p \<and> plane_value bb2 0 4 p = FLT_MAX \<Longrightarrow> plane_value bb1 0 4 p = FLT_MAX"
    by blast
  have e: "hysteresis ex_plane 0 ex_stack 4 3 4 8 2 =
       Some ([- FLT_MAX, - FLT_MAX, - FLT_MAX, - FLT_MAX, - FLT_MAX, FLT_MAX, FLT_MAX, - FLT_MAX,
              - FLT_MAX, - FLT_MAX, - FLT_MAX, - FLT_MAX],
             \<lparr>map_s = [0, 0, 0, 0, 0, 255, 255, 0, 0, 0, 0, 0],
                pos = [(2, 1), (0, 0), (0, 0), (0, 0), (0, 0), (0, 0), (0, 0), (0, 0), (0, 0),
                       (0, 0), (0, 0), (0, 0)],
                index = - 1\<rparr>)"
    by code_simp
  have 2: "plane_value bb2 0 4 (2, 1) = FLT_MAX"
    using r2 unfolding e by (auto simp: plane_value_def pixel_def)
  then have "plane_value bb1 0 4 (2, 1) = FLT_MAX" using sub[of "(2, 1)"] by (simp add: in_plane_def)
  with r1 r2 2 show ?thesis by blast
qed

text \<open>
  Raising the low threshold from \<open>- FLT_MAX\<close> to \<open>1\<close> with \<open>t_h = 8\<close> fixed: the pass with
  the higher threshold confirms the pixel \<open>(1, 1)\<close>, the pass with the lower one leaves the
  plane and has no result.
\<close>

theorem hysteresis_antitone_counterexample:
  "(- FLT_MAX :: real) \<le> 1 \<and> (1 :: real) < 8 \<and>
   hysteresis ex_plane 0 ex_stack 4 3 4 8 (- FLT_MAX) = None \<and>
   map_option (\<lambda>(bb, s). plane_value bb 0 4 (1, 1)) (hysteresis ex_plane 0 ex_stack 4 3 4 8 1) =
     Some FLT_MAX"
  by code_simp

text \<open>
  C3. Under the conditions on the plane of C1 (its border below the low threshold),
  the pass with the log returns, and so does \<open>hysteresis\<close> itself, with the same buffer
  and stack: the pass terminates. At every push the mask byte of the pixel was zero
  before the pixel was confirmed and is not zero when \<open>push\<close> is called, and the index that
  \<open>push\<close> leaves is below \<open>w * h\<close>; no pixel is pushed twice; the stack is empty at the end.
  When the border is not below the low threshold (\<open>t_l \<le> - FLT_MAX\<close> after the
  suppression), a pixel of the border is pushed and the pass leaves the plane and the
  mask, as the example after the theorem shows.
\<close>

theorem hysteresis_pushes_once:
  assumes "plane_in bbuf b bs w h"
    and "w * h \<le> int (length (map_s stack))" and "w * h \<le> int (length (pos stack))"
    and "\<forall>p. in_plane w h p \<and> \<not> interior w h p \<longrightarrow> plane_value bbuf b bs p < lo"
  shows "\<exists>bb' s' lg.
     hysteresis_log bbuf b stack w h bs hi lo = Some ((bb', s'), lg) \<and>
     hysteresis bbuf b stack w h bs hi lo = Some (bb', s') \<and>
     (\<forall>e\<in>set lg. ev_mask_before e = 0 \<and> ev_mask_at_push e \<noteq> 0 \<and>
                  0 \<le> ev_index e \<and> ev_index e < w * h \<and> in_plane w h (ev_pixel e)) \<and>
     distinct (map ev_pixel lg) \<and> int (length lg) \<le> w * h \<and> index s' = - 1"
proof -
  have pre: "hyst_pre bbuf b bs w h lo" unfolding hyst_pre_def using assms(1,4) by auto
  from hysteresis_log_correct[OF pre assms(2,3), of hi] obtain bb' s' lg where
    run: "hysteresis_log bbuf b stack w h bs hi lo = Some ((bb', s'), lg)"
    and ix: "index s' = - 1" and lg: "log_inv w h s' lg"
    by blast
  have e: "hysteresis bbuf b stack w h bs hi lo = Some (bb', s')"
    using hysteresis_log_erase[of bbuf b stack w h bs hi lo] run by simp
  from assms(1) have wh: "0 < w" "0 < h" by (auto simp: plane_in_def)
  have d: "distinct (map ev_pixel lg)" using lg by (simp add: log_inv_def)
  have "ev_pixel e \<in> {0..<w} \<times> {0..<h}" if "e \<in> set lg" for e
    using lg that by (auto simp: log_inv_def in_plane_def mem_Times_iff)
  then have "ev_pixel ` set lg \<subseteq> {0..<w} \<times> {0..<h}" by blast
  then have "card (ev_pixel ` set lg) \<le> card ({0..<w} \<times> {0..<h})"
    by (intro card_mono) auto
  moreover have "card (ev_pixel ` set lg) = length lg"
    using d distinct_card[of "map ev_pixel lg"] by simp
  moreover have "int (card ({0..<w} \<times> {0..<h})) = w * h"
    using wh by (simp add: card_cartesian_product)
  ultimately have "int (length lg) \<le> w * h" by linarith
  with run e ix lg d show ?thesis unfolding log_inv_def by blast
qed

theorem hysteresis_pushes_once_witness:
  "\<exists>bb' s' lg.
     hysteresis_log ex_plane 0 ex_stack 4 3 4 8 1 = Some ((bb', s'), lg) \<and>
     hysteresis ex_plane 0 ex_stack 4 3 4 8 1 = Some (bb', s') \<and>
     map ev_pixel lg = [(1, 1), (2, 1)] \<and> map ev_index lg = [0, 0] \<and>
     distinct (map ev_pixel lg) \<and> index s' = - 1"
proof -
  have b: "\<forall>p. in_plane 4 3 p \<and> \<not> interior 4 3 p \<longrightarrow> plane_value ex_plane 0 4 p < 1"
    using ex_border ex_thresholds(1) by auto
  from hysteresis_pushes_once[OF ex_plane_in ex_stack_size b, of 8]
  obtain bb' s' lg where
    run: "hysteresis_log ex_plane 0 ex_stack 4 3 4 8 1 = Some ((bb', s'), lg)"
    and e: "hysteresis ex_plane 0 ex_stack 4 3 4 8 1 = Some (bb', s')"
    and d: "distinct (map ev_pixel lg)" and ix: "index s' = - 1"
    by blast
  have v: "hysteresis_log ex_plane 0 ex_stack 4 3 4 8 1 =
       Some (([- FLT_MAX, - FLT_MAX, - FLT_MAX, - FLT_MAX, - FLT_MAX, FLT_MAX, FLT_MAX, - FLT_MAX,
              - FLT_MAX, - FLT_MAX, - FLT_MAX, - FLT_MAX],
             \<lparr>map_s = [0, 0, 0, 0, 0, 255, 255, 0, 0, 0, 0, 0],
                pos = [(2, 1), (0, 0), (0, 0), (0, 0), (0, 0), (0, 0), (0, 0), (0, 0), (0, 0),
                       (0, 0), (0, 0), (0, 0)],
                index = - 1\<rparr>),
            [\<lparr>ev_pixel = (1, 1), ev_mask_before = 0, ev_mask_at_push = 255, ev_index = 0\<rparr>,
             \<lparr>ev_pixel = (2, 1), ev_mask_before = 0, ev_mask_at_push = 255, ev_index = 0\<rparr>])"
    by code_simp
  have "map ev_pixel lg = [(1, 1), (2, 1)]" "map ev_index lg = [0, 0]"
    using run unfolding v by auto
  with run e d ix show ?thesis
    by (intro exI[of _ bb'] exI[of _ s'] exI[of _ lg]) simp
qed

text \<open>
  With \<open>t_l = - FLT_MAX\<close> the neighbour \<open>(0, 0)\<close> of the first seed, a pixel of the border,
  passes the test of line 760 and is pushed; the pass as a whole leaves the plane and the
  mask and has no result.
\<close>

theorem hysteresis_pushes_border_counterexample:
  "hysteresis_log ex_plane 0 ex_stack 4 3 4 8 (- FLT_MAX) = None \<and>
   hysteresis_neighbour_log 0 4 4 (- FLT_MAX) (0, 0)
     ((ex_plane, ex_stack\<lparr>map_s := replicate 12 0, index := - 1\<rparr>), []) =
   Some ((ex_plane[0 := FLT_MAX],
          \<lparr>map_s = (replicate 12 0)[0 := UINT8_MAX], pos = (replicate 12 (0, 0))[0 := (0, 0)],
             index = 0\<rparr>),
         [\<lparr>ev_pixel = (0, 0), ev_mask_before = 0, ev_mask_at_push = UINT8_MAX, ev_index = 0\<rparr>]) \<and>
   \<not> interior 4 3 (0, 0)"
  by code_simp


section \<open>Properties of the filter\<close>

lemma process_plane_dst:
  assumes "process_plane T d src buffer blur gradient direction plane st = Some st'"
  shows "\<exists>v. fst st' = (fst st)[nat plane := v]"
proof -
  obtain dst rbuf bbuf gbuf dbuf stack where st: "st = (dst, rbuf, bbuf, gbuf, dbuf, stack)"
    by (cases st) auto
  show ?thesis
    using assms unfolding st process_plane_def Let_def
    by (auto simp: bind_eq_Some_conv)
qed

lemma process_loop_dst:
  assumes "for_loop ks
             (\<lambda>plane st. do {
                pr \<leftarrow> rd flags plane;
                if pr then process_plane T d src buffer blur gradient direction plane st
                else Some st })
             st = Some st'"
    and "\<forall>k\<in>set ks. rd flags k = Some True \<longrightarrow> nat k \<noteq> q"
  shows "length (fst st') = length (fst st) \<and> fst st' ! q = fst st ! q"
  using assms
proof (induction ks arbitrary: st)
  case Nil
  then show ?case by simp
next
  case (Cons k ks)
  from Cons.prems(1) obtain s1 where
    b: "(do { pr \<leftarrow> rd flags k;
              if pr then process_plane T d src buffer blur gradient direction k st
              else Some st }) = Some s1"
    and r: "for_loop ks
             (\<lambda>plane st. do {
                pr \<leftarrow> rd flags plane;
                if pr then process_plane T d src buffer blur gradient direction plane st
                else Some st })
             s1 = Some st'"
    by (auto split: option.splits)
  from b obtain pr where pr: "rd flags k = Some pr"
    and s1: "(if pr then process_plane T d src buffer blur gradient direction k st else Some st) = Some s1"
    by (auto simp: bind_eq_Some_conv)
  have one: "length (fst s1) = length (fst st) \<and> fst s1 ! q = fst st ! q"
  proof (cases pr)
    case True
    with s1 have "process_plane T d src buffer blur gradient direction k st = Some s1" by simp
    from process_plane_dst[OF this] obtain v where v: "fst s1 = (fst st)[nat k := v]" ..
    from True pr Cons.prems(2) have "nat k \<noteq> q" by simp
    with v show ?thesis by simp
  next
    case False
    with s1 show ?thesis by simp
  qed
  from Cons.prems(2) have "\<forall>k\<in>set ks. rd flags k = Some True \<longrightarrow> nat k \<noteq> q" by simp
  from Cons.IH[OF r this] one show ?case by simp
qed

lemma process_T_dst:
  assumes "process_T T src dst rbuf buffer bbuf blur gbuf gradient dbuf direction stack d = Some dst'"
    and "0 \<le> plane" and "rd (process d) plane = Some False"
  shows "length dst' = length dst \<and> dst' ! nat plane = dst ! nat plane"
proof (cases "vi_format (vi d)")
  case None
  with assms(1) show ?thesis by (simp add: process_T_def)
next
  case (Some fmt)
  let ?body = "\<lambda>plane st. do {
          pr \<leftarrow> rd (process d) plane;
          if pr then process_plane T d src buffer blur gradient direction plane st
          else Some st }"
  show ?thesis
  proof (cases "for_loop [0..f_numPlanes fmt - 1] ?body (dst, rbuf, bbuf, gbuf, dbuf, stack)")
    case None
    with assms(1) Some show ?thesis by (simp add: process_T_def)
  next
    case st: (Some st)
    with assms(1) Some have d: "dst' = fst st" by (simp add: process_T_def)
    have "\<forall>k\<in>set [0..f_numPlanes fmt - 1]. rd (process d) k = Some True \<longrightarrow> nat k \<noteq> nat plane"
      using assms(2,3) by (auto simp: eq_nat_nat_iff)
    from process_loop_dst[OF st this] d show ?thesis by simp
  qed
qed

lemma newVideoFrame2_copy:
  assumes "length (process d) = 3" and "0 \<le> plane" and "plane < n"
    and "rd (process d) plane = Some False"
  shows "nat plane < length (newVideoFrame2 fresh
            [if process d ! 0 then None else Some src, if process d ! 1 then None else Some src,
             if process d ! 2 then None else Some src] [0, 1, 2] n) \<and>
         newVideoFrame2 fresh
            [if process d ! 0 then None else Some src, if process d ! 1 then None else Some src,
             if process d ! 2 then None else Some src] [0, 1, 2] n ! nat plane = src ! nat plane"
proof -
  from assms have p: "plane = 0 \<or> plane = 1 \<or> plane = 2" and f: "\<not> process d ! nat plane"
    by (auto simp: rd_def split: if_splits)
  from assms(2,3) have lt: "nat plane < nat n" by simp
  from p f show ?thesis unfolding newVideoFrame2_def using lt by auto
qed

lemma case_option_Inr:
  "(case x of None \<Rightarrow> Some (Inl e) | Some v \<Rightarrow> f v) = Some (Inr r) \<longleftrightarrow>
   (\<exists>v. x = Some v \<and> f v = Some (Inr r))"
  by (cases x) auto

lemma tcannyGetFrame_process:
  assumes "tcannyGetFrame hp fresh activationReason d src = Some (Inr (Some dst))"
    and "vi_format (vi d) = Some fmt"
    and "length (process d) = 3"
  shows "\<exists>T rbuf buffer bbuf blur gbuf gradient dbuf direction stack.
      process_T T src (newVideoFrame2 fresh
            [if process d ! 0 then None else Some src, if process d ! 1 then None else Some src,
             if process d ! 2 then None else Some src] [0, 1, 2] (f_numPlanes fmt))
        rbuf buffer bbuf blur gbuf gradient dbuf direction stack d = Some dst"
proof -
  have ar: "activationReason = arAllFramesReady"
    using assms(1) unfolding tcannyGetFrame_def by (auto split: if_splits)
  show ?thesis
    using assms unfolding tcannyGetFrame_def Let_def ar
    apply (simp add: bind_eq_Some_conv case_option_Inr rd_def)
    apply (cases "f_sampleType fmt = stInteger"; cases "f_bitsPerSample fmt = 8")
    apply auto
    apply blast+
    done
qed

text \<open>
  C9. When \<open>tcannyGetFrame\<close> returns a frame, every plane of the clip whose flag in
  \<open>process\<close> is not set is in that frame and equal to the plane of the source frame with
  the same index, its samples included: \<open>newVideoFrame2\<close> copies it from the source, and
  \<open>process\<close> writes only the planes whose flag is set. \<open>process\<close> is the array of three flags
  of the declaration.
\<close>

theorem tcannyGetFrame_unselected_planes:
  assumes "tcannyGetFrame hp fresh activationReason d src = Some (Inr (Some dst))"
    and "vi_format (vi d) = Some fmt"
    and "length (process d) = 3"
    and "0 \<le> plane" and "plane < f_numPlanes fmt"
    and "rd (process d) plane = Some False"
  shows "nat plane < length dst \<and> dst ! nat plane = src ! nat plane"
proof -
  from tcannyGetFrame_process[OF assms(1,2,3)]
  obtain T rbuf buffer bbuf blur gbuf gradient dbuf direction stack where
    "process_T T src (newVideoFrame2 fresh
            [if process d ! 0 then None else Some src, if process d ! 1 then None else Some src,
             if process d ! 2 then None else Some src] [0, 1, 2] (f_numPlanes fmt))
        rbuf buffer bbuf blur gbuf gradient dbuf direction stack d = Some dst"
    by blast
  from process_T_dst[OF this assms(4,6)] newVideoFrame2_copy[OF assms(3,4,5,6), of fresh src]
  show ?thesis by simp
qed


lemma ex_blur:
  "gaussianBlurVertical_T [8, 16, 24, 32] 0 [0, 0, 0, 0, 0, 0, 0, 0, 0, 0, 0, 0, 0, 0, 0, 0, 0, 0] 8
     [0, 0, 0, 0, 0, 0, 0, 0, 0, 0, 0, 0, 0, 0, 0, 0, 0, 0, 0, 0, 0, 0, 0, 0, 0, 0, 0, 0, 0, 0, 0, 0, 0, 0, 0, 0] 8
     [1 / 4, 1 / 2, 1 / 4] 0 2 2 2 18 1 0 =
   Some ([0, 0, 0, 0, 0, 0, 0, 20, 20, 28, 28, 0, 0, 0, 0, 0, 0, 0],
         [0, 0, 0, 0, 0, 0, 0, 0, 14, 18, 0, 0, 0, 0, 0, 0, 0, 0, 0, 0, 0, 0, 0,
          0, 0, 0, 22, 26, 0, 0, 0, 0, 0, 0, 0, 0])"
  by code_simp

lemma ex_output:
  "outputGB_T T_uint8
     [0, 0, 0, 0, 0, 0, 0, 0, 14, 18, 0, 0, 0, 0, 0, 0, 0, 0, 0, 0, 0, 0, 0,
      0, 0, 0, 22, 26, 0, 0, 0, 0, 0, 0, 0, 0] 8 [0, 0, 0, 0] 0 2 2 2 18 255 0 0 =
   Some [14, 18, 22, 26]"
  by code_simp

lemma ex_frame:
  "tcannyGetFrame ex_heap ex_fresh arAllFramesReady (ex_data\<lparr>t_h := a, t_l := b\<rparr>) ex_src =
   Some (Inr (Some [\<lparr>p_width = 2, p_height = 2, p_stride = 2, p_data = [14, 18, 22, 26]\<rparr>,
                    \<lparr>p_width = 2, p_height = 2, p_stride = 2, p_data = [1, 2, 3, 4]\<rparr>,
                    \<lparr>p_width = 2, p_height = 2, p_stride = 2, p_data = [5, 6, 7, 8]\<rparr>]))"
  by (simp add: tcannyGetFrame_def ex_heap_def ex_fresh_def ex_data_def ex_src_def ex_format_def
        rd_def newVideoFrame2_def vs_aligned_malloc_def upt_conv_Cons process_T_def upto_eval
        process_plane_def sizeof_T_def ex_blur ex_output)

theorem tcannyGetFrame_unselected_planes_witness:
  "\<exists>dst. tcannyGetFrame ex_heap ex_fresh arAllFramesReady ex_data ex_src = Some (Inr (Some dst)) \<and>
     vi_format (vi ex_data) = Some ex_format \<and> length (process ex_data) = 3 \<and>
     (1::int) < f_numPlanes ex_format \<and> rd (process ex_data) 1 = Some False \<and>
     nat 1 < length dst \<and> dst ! nat 1 = ex_src ! nat 1"
proof -
  have e: "tcannyGetFrame ex_heap ex_fresh arAllFramesReady ex_data ex_src =
    Some (Inr (Some [\<lparr>p_width = 2, p_height = 2, p_stride = 2, p_data = [14, 18, 22, 26]\<rparr>,
                    \<lparr>p_width = 2, p_height = 2, p_stride = 2, p_data = [1, 2, 3, 4]\<rparr>,
                    \<lparr>p_width = 2, p_height = 2, p_stride = 2, p_data = [5, 6, 7, 8]\<rparr>]))"
    using ex_frame[where a = "t_h ex_data" and b = "t_l ex_data"] by simp
  have h: "vi_format (vi ex_data) = Some ex_format" "length (process ex_data) = 3"
    "(0::int) \<le> 1" "(1::int) < f_numPlanes ex_format" "rd (process ex_data) 1 = Some False"
    by (simp_all add: ex_data_def ex_format_def rd_def)
  from tcannyGetFrame_unselected_planes[OF e h] e h show ?thesis by simp
qed

lemma process_plane_thresholds:
  assumes "mode d AND 1 \<noteq> 0"
  shows "process_plane T (d\<lparr>t_h := a, t_l := b\<rparr>) src buffer blur gradient direction plane =
         process_plane T d src buffer blur gradient direction plane"
  unfolding process_plane_def using assms by (simp add: Let_def cong: if_cong)

lemma process_T_thresholds:
  assumes "mode d AND 1 \<noteq> 0"
  shows "process_T T src dst rbuf buffer bbuf blur gbuf gradient dbuf direction stack
           (d\<lparr>t_h := a, t_l := b\<rparr>) =
         process_T T src dst rbuf buffer bbuf blur gbuf gradient dbuf direction stack d"
  unfolding process_T_def by (simp add: process_plane_thresholds[OF assms] cong: if_cong)

lemma mode_odd:
  assumes "m = - 1 \<or> m = 1 \<or> m = (3::int)"
  shows "m AND 1 \<noteq> 0"
  using assms by auto

text \<open>
  C10. In the modes -1, 1 and 3 the test \<open>!(d->mode & 1)\<close> fails, so neither
  \<open>nonMaximumSuppression\<close> nor \<open>hysteresis\<close> runs and no other stage reads the thresholds: two
  calls of \<open>tcannyGetFrame\<close> on the same frame, with the same allocations, whose filter
  data differ in \<open>t_h\<close> and \<open>t_l\<close> only have the same result, the same frame when they
  return one.
\<close>

theorem tcannyGetFrame_thresholds_irrelevant:
  assumes "mode d = - 1 \<or> mode d = 1 \<or> mode d = 3"
  shows "tcannyGetFrame hp fresh activationReason (d\<lparr>t_h := a, t_l := b\<rparr>) src =
         tcannyGetFrame hp fresh activationReason d src"
  unfolding tcannyGetFrame_def
  by (simp add: process_T_thresholds[OF mode_odd[OF assms]] Let_def cong: if_cong option.case_cong)

theorem tcannyGetFrame_thresholds_irrelevant_witness:
  "mode ex_data = - 1 \<and>
   tcannyGetFrame ex_heap ex_fresh arAllFramesReady (ex_data\<lparr>t_h := 200, t_l := 100\<rparr>) ex_src =
   tcannyGetFrame ex_heap ex_fresh arAllFramesReady ex_data ex_src \<and>
   tcannyGetFrame ex_heap ex_fresh arAllFramesReady ex_data ex_src =
   Some (Inr (Some [\<lparr>p_width = 2, p_height = 2, p_stride = 2, p_data = [14, 18, 22, 26]\<rparr>,
                    \<lparr>p_width = 2, p_height = 2, p_stride = 2, p_data = [1, 2, 3, 4]\<rparr>,
                    \<lparr>p_width = 2, p_height = 2, p_stride = 2, p_data = [5, 6, 7, 8]\<rparr>]))"
proof -
  have m: "mode ex_data = - 1" by (simp add: ex_data_def)
  have "mode ex_data = - 1 \<or> mode ex_data = 1 \<or> mode ex_data = 3" using m by simp
  from tcannyGetFrame_thresholds_irrelevant[OF this, where hp = ex_heap and fresh = ex_fresh
      and activationReason = arAllFramesReady and a = 200 and b = 100 and src = ex_src]
    ex_frame[where a = "t_h ex_data" and b = "t_l ex_data"] m
  show ?thesis by simp
qed

text \<open>
  C8. When the low threshold (the one supplied, or else the default 1) is at least the
  high threshold (the one supplied, or else the default 8), \<open>tcannyCreate\<close> sets an error
  and hands no filter data to \<open>createFilter\<close>, whatever the allocator would do and whatever
  the clip is: it returns before the kernel is allocated. The message is that of the
  order of the thresholds when \<open>sigma\<close> is positive; \<open>sigma\<close> is checked first, so when it is
  not positive the message is that of \<open>sigma\<close>.
\<close>

theorem tcannyCreate_threshold_order:
  assumes "(case in_t_h inp of None \<Rightarrow> 8 | Some v \<Rightarrow> v) \<le> (case in_t_l inp of None \<Rightarrow> 1 | Some v \<Rightarrow> v)"
  shows "tcannyCreate nothrow_new d0 inp =
         Some (Inl (if (case in_sigma inp of None \<Rightarrow> 1.5 | Some v \<Rightarrow> v) \<le> 0
                    then ''TCanny: sigma must be greater than 0.0''
                    else ''TCanny: t_h must be greater than t_l''))"
  using assms unfolding tcannyCreate_def Let_def by simp

theorem tcannyCreate_threshold_order_witness:
  "tcannyCreate (\<lambda>n. False) ex_data ex_map = Some (Inl ''TCanny: t_h must be greater than t_l'') \<and>
   tcannyCreate (\<lambda>n. True) ex_data ex_map = Some (Inl ''TCanny: t_h must be greater than t_l'')"
  using tcannyCreate_threshold_order[of ex_map "\<lambda>n. False" ex_data]
        tcannyCreate_threshold_order[of ex_map "\<lambda>n. True" ex_data]
  by (simp add: ex_map_def)

theorem tcannyCreate_threshold_order_counterexample:
  "tcannyCreate (\<lambda>n. True) ex_data (ex_map\<lparr>in_sigma := Some 0\<rparr>) =
     Some (Inl ''TCanny: sigma must be greater than 0.0'') \<and>
   tcannyCreate (\<lambda>n. True) ex_data (ex_map\<lparr>in_sigma := Some 0\<rparr>) \<noteq>
     Some (Inl ''TCanny: t_h must be greater than t_l'') \<and>
   in_t_h (ex_map\<lparr>in_sigma := Some 0\<rparr>) = Some 1 \<and> in_t_l (ex_map\<lparr>in_sigma := Some 0\<rparr>) = Some 2"
  by (simp add: tcannyCreate_def ex_map_def)

end
